theory Spec2Isabelle
  imports Main
begin

section \<open>Python strings\<close>

text \<open>A Python \<open>str\<close> is a sequence of Unicode code points; \<open>len\<close>, \<open>strip\<close>,
  \<open>splitlines\<close> and the \<open>re\<close> module all work on code points, so a string is modelled
  as the list of its code points. \<open>lit\<close> turns an ASCII literal into such a list.\<close>

type_synonym pystr = "nat list"

definition lit :: "string \<Rightarrow> pystr" where
  "lit s = map of_char s"

text \<open>\<open>str(n)\<close> for a Python int, as the f-strings render \<open>num_id\<close>, \<open>num_line\<close> and
  \<open>i\<close>.\<close>

function str_nat :: "nat \<Rightarrow> pystr" where
  "str_nat n = (if n < 10 then [48 + n] else str_nat (n div 10) @ [48 + n mod 10])"
  by pat_completeness auto
termination
  by (relation "measure id") auto

declare str_nat.simps [simp del]

definition str_int :: "int \<Rightarrow> pystr" where
  "str_int i = (if i < 0 then 45 # str_nat (nat (- i)) else str_nat (nat i))"

text \<open>\<open>sep.join(xs)\<close>.\<close>

fun join :: "pystr \<Rightarrow> pystr list \<Rightarrow> pystr" where
  "join sep [] = []"
| "join sep [x] = x"
| "join sep (x # y # ys) = x @ sep @ join sep (y # ys)"

text \<open>\<open>line.startswith(p)\<close>.\<close>

definition starts_with :: "pystr \<Rightarrow> pystr \<Rightarrow> bool" where
  "starts_with p s = (take (length p) s = p)"

text \<open>\<open>str.isspace\<close> for one code point: the characters that \<open>strip()\<close> removes.\<close>

definition isspace :: "nat \<Rightarrow> bool" where
  "isspace c =
     ((9 \<le> c \<and> c \<le> 13) \<or> (28 \<le> c \<and> c \<le> 32) \<or> c = 133 \<or> c = 160 \<or> c = 5760
      \<or> (8192 \<le> c \<and> c \<le> 8202) \<or> c = 8232 \<or> c = 8233 \<or> c = 8239 \<or> c = 8287
      \<or> c = 12288)"

definition strip :: "pystr \<Rightarrow> pystr" where
  "strip s = rev (dropWhile isspace (rev (dropWhile isspace s)))"

text \<open>The line boundaries of \<open>str.splitlines\<close>; \<open>\r\n\<close> is one boundary, and a text
  that ends with a boundary has no empty last line.\<close>

definition is_linebreak :: "nat \<Rightarrow> bool" where
  "is_linebreak c =
     ((10 \<le> c \<and> c \<le> 13) \<or> (28 \<le> c \<and> c \<le> 30) \<or> c = 133 \<or> c = 8232 \<or> c = 8233)"

fun splitlines :: "pystr \<Rightarrow> pystr list" where
  "splitlines [] = []"
| "splitlines [c] = (if is_linebreak c then [[]] else [[c]])"
| "splitlines (c # d # cs) =
     (if c = 13 \<and> d = 10 then [] # splitlines cs
      else if is_linebreak c then [] # splitlines (d # cs)
      else (case splitlines (d # cs) of [] \<Rightarrow> [[c]] | l # ls \<Rightarrow> (c # l) # ls))"

section \<open>The CIDR pattern\<close>

text \<open>The fragment of Python's regular expressions that \<open>cidr_pattern\<close> uses: a literal
  character, a character range, a character set, sequence, alternation, \<open>r?\<close> and
  \<open>r{n}\<close>. Groups, capturing or not, do not change whether a text matches.\<close>

datatype regex =
    Chr nat
  | Rng nat nat
  | OneOf "nat list"
  | Seq regex regex
  | Alt regex regex
  | Opt regex
  | Rep nat regex

fun rsize :: "regex \<Rightarrow> nat" where
  "rsize (Seq r1 r2) = Suc (rsize r1 + rsize r2)"
| "rsize (Alt r1 r2) = Suc (rsize r1 + rsize r2)"
| "rsize (Opt r) = Suc (rsize r)"
| "rsize (Rep n r) = Suc (n + rsize r)"
| "rsize r = 0"

text \<open>The backtracking matcher: every way \<open>r\<close> can match at the start of \<open>s\<close>, each
  given as the text left after the match, in the order in which \<open>re\<close> tries them (the
  left alternative first, the greedy choice first).\<close>

function rmatch :: "regex \<Rightarrow> pystr \<Rightarrow> pystr list" where
  "rmatch (Chr c) s = (case s of [] \<Rightarrow> [] | x # xs \<Rightarrow> if x = c then [xs] else [])"
| "rmatch (Rng lo hi) s = (case s of [] \<Rightarrow> [] | x # xs \<Rightarrow> if lo \<le> x \<and> x \<le> hi then [xs] else [])"
| "rmatch (OneOf cs) s = (case s of [] \<Rightarrow> [] | x # xs \<Rightarrow> if x \<in> set cs then [xs] else [])"
| "rmatch (Seq r1 r2) s = concat (map (rmatch r2) (rmatch r1 s))"
| "rmatch (Alt r1 r2) s = rmatch r1 s @ rmatch r2 s"
| "rmatch (Opt r) s = rmatch r s @ [s]"
| "rmatch (Rep 0 r) s = [s]"
| "rmatch (Rep (Suc n) r) s = concat (map (rmatch (Rep n r)) (rmatch r s))"
  by pat_completeness auto
termination
  by (relation "measure (\<lambda>(r, s). rsize r)") auto

text \<open>\<open>re.compile('^' + r + '$').match(s)\<close>: \<open>match\<close> starts at position 0, where
  \<open>^\<close> holds; \<open>$\<close> holds at the end of the string and also just before a newline that
  ends the string.\<close>

definition at_dollar :: "pystr \<Rightarrow> bool" where
  "at_dollar rest = (rest = [] \<or> rest = [10])"

definition match_anchored :: "regex \<Rightarrow> pystr \<Rightarrow> bool" where
  "match_anchored r s = list_ex at_dollar (rmatch r s)"

text \<open>\<open>(?:25[0-5]|2[0-4][0-9]|[01]?[0-9][0-9]?)\<close>\<close>

definition octet_re :: regex where
  "octet_re =
     Alt (Seq (Chr 50) (Seq (Chr 53) (Rng 48 53)))
      (Alt (Seq (Chr 50) (Seq (Rng 48 52) (Rng 48 57)))
           (Seq (Opt (OneOf [48, 49])) (Seq (Rng 48 57) (Opt (Rng 48 57)))))"

text \<open>\<open>([0-9]|[12][0-9]|3[0-2])\<close>\<close>

definition mask_re :: regex where
  "mask_re =
     Alt (Rng 48 57) (Alt (Seq (OneOf [49, 50]) (Rng 48 57)) (Seq (Chr 51) (Rng 48 50)))"

text \<open>The three octets followed by a dot, the fourth octet, the slash and the mask.\<close>

definition cidr_re :: regex where
  "cidr_re = Seq (Rep 3 (Seq octet_re (Chr 46))) (Seq octet_re (Seq (Chr 47) mask_re))"

definition cidr_pattern_match :: "pystr \<Rightarrow> bool" where
  "cidr_pattern_match line = match_anchored cidr_re line"

section \<open>The extractor\<close>

text \<open>What \<open>requests.get\<close> produced: an exception, or a response with its status code
  and its text. \<open>raise_for_status\<close> raises for the status codes 400 to 599.\<close>

datatype response = RequestFailed | Reply nat pystr

definition http_error :: "nat \<Rightarrow> bool" where
  "http_error status = (400 \<le> status \<and> status < 600)"

text \<open>The state of the scan: the list \<open>cidrs\<close>, and the lines reported on the console
  as skipped, each with its \<open>line_num\<close>.\<close>

record scan_state =
  scan_cidrs :: "pystr list"
  scan_skipped :: "(nat \<times> pystr) list"

text \<open>\<open>not line or line.startswith('#')\<close>\<close>

definition skip_line :: "pystr \<Rightarrow> bool" where
  "skip_line line = (line = [] \<or> starts_with (lit ''#'') line)"

text \<open>One iteration of \<open>for line_num, line in enumerate(lines, 1)\<close>.\<close>

definition scan_step :: "scan_state \<Rightarrow> nat \<times> pystr \<Rightarrow> scan_state" where
  "scan_step st nl =
     (let line_num = fst nl; line = strip (snd nl) in
      if skip_line line then st
      else if cidr_pattern_match line then st\<lparr>scan_cidrs := scan_cidrs st @ [line]\<rparr>
      else st\<lparr>scan_skipped := scan_skipped st @ [(line_num, line)]\<rparr>)"

definition scan :: "pystr \<Rightarrow> scan_state" where
  "scan text = foldl scan_step \<lparr>scan_cidrs = [], scan_skipped = []\<rparr> (enumerate 1 (splitlines text))"

text \<open>\<open>fetch_domestic_cidrs\<close>, given what \<open>requests.get\<close> produced. Every exception
  raised inside it is caught there and turns into the empty list.\<close>

definition fetch_domestic_cidrs :: "response \<Rightarrow> scan_state" where
  "fetch_domestic_cidrs r =
     (case r of
        RequestFailed \<Rightarrow> \<lparr>scan_cidrs = [], scan_skipped = []\<rparr>
      | Reply status text \<Rightarrow>
          if http_error status then \<lparr>scan_cidrs = [], scan_skipped = []\<rparr> else scan text)"

section \<open>The address-group file\<close>

text \<open>The file system maps a path to the text of the file there.\<close>

type_synonym filesystem = "pystr \<rightharpoonup> pystr"

text \<open>\<open>if os.path.exists(p): os.remove(p)\<close>\<close>

definition remove_if_exists :: "pystr \<Rightarrow> filesystem \<Rightarrow> filesystem" where
  "remove_if_exists path fs = (if fs path \<noteq> None then fs(path := None) else fs)"

definition group_filename :: "pystr \<Rightarrow> pystr" where
  "group_filename data_date = lit ''domestic_ikuai_ipgroup-'' @ data_date @ lit ''.txt''"

text \<open>The f-string of a group line. The group name in it is the two characters U+56FD
  U+5185, then \<open>IP-\<close> and \<open>num_line\<close>.\<close>

definition group_line :: "int \<Rightarrow> int \<Rightarrow> pystr list \<Rightarrow> pystr" where
  "group_line nid nline pool =
     lit ''id='' @ str_int nid @ lit '' comment= type=0 group_name='' @ [22269, 20869]
       @ lit ''IP-'' @ str_int nline @ lit '' addr_pool='' @ join (lit '','') pool"

text \<open>The variables of the loop, and the text written to \<open>f\<close> so far.\<close>

record gen_state =
  num_line :: int
  num_id :: int
  addr_pool :: "pystr list"
  file_text :: pystr

definition gen_init :: gen_state where
  "gen_init = \<lparr>num_line = 1, num_id = 60, addr_pool = [], file_text = []\<rparr>"

text \<open>One iteration of \<open>for cidr in cidrs\<close>.\<close>

definition gen_step :: "gen_state \<Rightarrow> pystr \<Rightarrow> gen_state" where
  "gen_step s cidr =
     (let pool = addr_pool s @ [cidr] in
      if length pool < 1000 then s\<lparr>addr_pool := pool\<rparr>
      else s\<lparr>file_text := file_text s @ group_line (num_id s) (num_line s) pool @ [10],
             num_id := num_id s + 1,
             num_line := num_line s + 1,
             addr_pool := []\<rparr>)"

text \<open>The leftover branch after the loop; it does not increment \<open>num_id\<close>.\<close>

definition gen_flush :: "gen_state \<Rightarrow> gen_state" where
  "gen_flush s =
     (if addr_pool s \<noteq> []
      then s\<lparr>file_text := file_text s @ group_line (num_id s) (num_line s) (addr_pool s) @ [10],
             num_line := num_line s + 1\<rparr>
      else s)"

definition gen_final :: "pystr list \<Rightarrow> gen_state" where
  "gen_final cidrs = gen_flush (foldl gen_step gen_init cidrs)"

text \<open>\<open>generate_ip_groups\<close> returns the file name and the group count; the model also
  returns the file system it leaves.\<close>

definition generate_ip_groups ::
  "pystr list \<Rightarrow> pystr \<Rightarrow> filesystem \<Rightarrow> filesystem \<times> pystr \<times> int" where
  "generate_ip_groups cidrs data_date fs =
     (let group_filename = group_filename data_date;
          fs1 = remove_if_exists group_filename fs;
          s = gen_final cidrs;
          total_groups = num_line s - 1
      in (fs1(group_filename \<mapsto> file_text s), group_filename, total_groups))"

section \<open>The ACL rule file\<close>

definition acl_filename :: "pystr \<Rightarrow> pystr" where
  "acl_filename data_date = lit ''domestic_ikuai_acl-'' @ data_date @ lit ''.txt''"

text \<open>The f-string \<open>acl_rule\<close>; its comment is U+5141 U+8BB8 U+56FD U+5185 \<open>IP\<close> U+8BBF
  U+95EE.\<close>

definition acl_rule :: "pystr \<Rightarrow> pystr" where
  "acl_rule src_addr_str =
     lit ''id=60 enabled=yes comment='' @ [20801, 35768, 22269, 20869] @ lit ''IP'' @ [35775, 38382]
       @ lit '' action=accept dir=forward ctdir=1 ''
       @ lit ''iinterface=any ointerface=any src_addr='' @ src_addr_str @ lit '' dst_addr= ''
       @ lit ''src6_addr= dst6_addr= src6_mode=0 dst6_mode=0 src6_suffix= dst6_suffix= ''
       @ lit ''src6_mac= dst6_mac= protocol=any src_port= dst_port= week=1234567 ''
       @ lit ''time=00:00-23:59 ip_type=4''"

text \<open>\<open>generate_acl_rules\<close>; \<open>range(1, num_groups + 1)\<close> is \<open>[1..num_groups]\<close>.\<close>

definition generate_acl_rules :: "int \<Rightarrow> pystr \<Rightarrow> filesystem \<Rightarrow> filesystem \<times> pystr" where
  "generate_acl_rules num_groups data_date fs =
     (let acl_filename = acl_filename data_date;
          fs1 = remove_if_exists acl_filename fs;
          src_addrs = map (\<lambda>i. [22269, 20869] @ lit ''IP-'' @ str_int i) [1..num_groups];
          src_addr_str = join (lit '','') src_addrs
      in (fs1(acl_filename \<mapsto> acl_rule src_addr_str @ [10]), acl_filename))"

section \<open>The run date\<close>

text \<open>A naive \<open>datetime\<close>, as \<open>datetime.utcnow()\<close> returns it.\<close>

record datetime =
  year :: int
  month :: int
  day :: int
  hour :: int
  minute :: int
  second :: int
  microsecond :: int

datatype error = OverflowError

definition is_leap :: "int \<Rightarrow> bool" where
  "is_leap y = (y mod 4 = 0 \<and> (y mod 100 \<noteq> 0 \<or> y mod 400 = 0))"

definition days_in_month :: "int \<Rightarrow> int \<Rightarrow> int" where
  "days_in_month y m =
     (if m = 2 then (if is_leap y then 29 else 28)
      else if m = 4 \<or> m = 6 \<or> m = 9 \<or> m = 11 then 30 else 31)"

text \<open>A \<open>datetime\<close> object always holds a date of the calendar, in the years 1 to 9999.\<close>

definition valid_datetime :: "datetime \<Rightarrow> bool" where
  "valid_datetime dt =
     (1 \<le> year dt \<and> year dt \<le> 9999 \<and> 1 \<le> month dt \<and> month dt \<le> 12
      \<and> 1 \<le> day dt \<and> day dt \<le> days_in_month (year dt) (month dt)
      \<and> 0 \<le> hour dt \<and> hour dt < 24 \<and> 0 \<le> minute dt \<and> minute dt < 60
      \<and> 0 \<le> second dt \<and> second dt < 60 \<and> 0 \<le> microsecond dt \<and> microsecond dt < 1000000)"

text \<open>\<open>dt + timedelta(days=1)\<close>: the day is incremented and the date normalised; a day one
  past the end of the month moves to the first of the next month, and a year past 9999
  raises \<open>OverflowError\<close>. The time of day is unchanged. The day of a \<open>datetime\<close> is at
  most the length of its month, so the second case is the day after the last of the
  month.\<close>

definition add_one_day :: "datetime \<Rightarrow> error + datetime" where
  "add_one_day dt =
     (if day dt + 1 \<le> days_in_month (year dt) (month dt) then Inr (dt\<lparr>day := day dt + 1\<rparr>)
      else if month dt + 1 \<le> 12 then Inr (dt\<lparr>month := month dt + 1, day := 1\<rparr>)
      else if year dt + 1 \<le> 9999 then Inr (dt\<lparr>year := year dt + 1, month := 1, day := 1\<rparr>)
      else Inl OverflowError)"

text \<open>\<open>strftime("%Y%m%d")\<close>, as CPython hands it to the C library: \<open>%Y\<close> is the year
  in decimal with no padding, so a year below 1000 has fewer than four digits (999-12-31
  is \<open>9991231\<close>); \<open>%m\<close> and \<open>%d\<close> are zero-padded to two digits.\<close>

definition zfill :: "nat \<Rightarrow> pystr \<Rightarrow> pystr" where
  "zfill w s = replicate (w - length s) 48 @ s"

definition strftime_Ymd :: "datetime \<Rightarrow> pystr" where
  "strftime_Ymd dt =
     str_int (year dt) @ zfill 2 (str_int (month dt)) @ zfill 2 (str_int (day dt))"

text \<open>\<open>get_data_date\<close>, given the value of \<open>datetime.utcnow()\<close>.\<close>

definition get_data_date :: "datetime \<Rightarrow> error + pystr" where
  "get_data_date utcnow =
     (case add_one_day utcnow of Inl e \<Rightarrow> Inl e | Inr t \<Rightarrow> Inr (strftime_Ymd t))"

section \<open>The run\<close>

datatype outcome = Raised error | NoCidrs | NoGroups | Completed

text \<open>The end of \<open>main\<close>, from the test \<open>num_groups == 0\<close> on, given what
  \<open>generate_ip_groups\<close> returned.\<close>

definition acl_stage :: "pystr \<Rightarrow> filesystem \<times> pystr \<times> int \<Rightarrow> outcome \<times> filesystem" where
  "acl_stage data_date g =
     (case g of (fs1, group_file, num_groups) \<Rightarrow>
        if num_groups = 0 then (NoGroups, fs1)
        else (case generate_acl_rules num_groups data_date fs1 of
                (fs2, acl_file) \<Rightarrow> (Completed, fs2)))"

text \<open>\<open>main\<close>, given the clock, what \<open>requests.get\<close> produced and the file system.\<close>

definition main :: "datetime \<Rightarrow> response \<Rightarrow> filesystem \<Rightarrow> outcome \<times> filesystem" where
  "main utcnow r fs =
     (case get_data_date utcnow of
        Inl e \<Rightarrow> (Raised e, fs)
      | Inr data_date \<Rightarrow>
          (let cidrs = scan_cidrs (fetch_domestic_cidrs r) in
           if cidrs = [] then (NoCidrs, fs)
           else acl_stage data_date (generate_ip_groups cidrs data_date fs)))"

section \<open>Reading the output files back\<close>

text \<open>\<open>s.split(c)\<close> for a one-character separator: the pieces between the separators,
  empty pieces kept, never an empty list.\<close>

fun split :: "nat \<Rightarrow> pystr \<Rightarrow> pystr list" where
  "split c [] = [[]]"
| "split c (x # xs) =
     (if x = c then [] # split c xs
      else (case split c xs of [] \<Rightarrow> [[x]] | p # ps \<Rightarrow> (x # p) # ps))"

text \<open>The records of a file: every record ends with a newline.\<close>

definition records :: "pystr \<Rightarrow> pystr list" where
  "records content = butlast (split 10 content)"

text \<open>The value of the first \<open>key=\<close> of a space-separated record.\<close>

definition field :: "string \<Rightarrow> pystr \<Rightarrow> pystr option" where
  "field key line =
     (case filter (starts_with (lit key @ [61])) (split 32 line) of
        [] \<Rightarrow> None
      | t # _ \<Rightarrow> Some (drop (length key + 1) t))"

text \<open>The members of a group: its \<open>addr_pool\<close> field split on the comma.\<close>

definition members :: "pystr \<Rightarrow> pystr list option" where
  "members line = map_option (split 44) (field ''addr_pool'' line)"

text \<open>The name of the group with sequence number \<open>i\<close>.\<close>

definition name_prefix :: pystr where
  "name_prefix = [22269, 20869] @ lit ''IP-''"

definition group_name :: "int \<Rightarrow> pystr" where
  "group_name i = name_prefix @ str_int i"

text \<open>The \<open>k\<close>-th slice of 1000 elements, the number of slices, and the line of the
  \<open>k\<close>-th group.\<close>

definition chunk :: "'a list \<Rightarrow> nat \<Rightarrow> 'a list" where
  "chunk xs k = take 1000 (drop (1000 * k) xs)"

definition ngroups :: "'a list \<Rightarrow> nat" where
  "ngroups xs = (length xs + 999) div 1000"

definition group_record :: "pystr list \<Rightarrow> nat \<Rightarrow> pystr" where
  "group_record cidrs k = group_line (60 + int k) (1 + int k) (chunk cidrs k)"

section \<open>The grammar of the specification\<close>

text \<open>The value of a string of decimal digits.\<close>

definition is_digit :: "nat \<Rightarrow> bool" where
  "is_digit c = (48 \<le> c \<and> c \<le> 57)"

definition decimal :: "pystr \<Rightarrow> nat" where
  "decimal s = foldl (\<lambda>acc c. 10 * acc + (c - 48)) 0 s"

text \<open>An octet: one to three digits with a value of at most 255.\<close>

definition spec_octet :: "pystr \<Rightarrow> bool" where
  "spec_octet x = (1 \<le> length x \<and> length x \<le> 3 \<and> list_all is_digit x \<and> decimal x \<le> 255)"

text \<open>A mask: \<open>[0-9]\<close>, \<open>[12][0-9]\<close> or \<open>3[0-2]\<close>.\<close>

definition spec_mask :: "pystr \<Rightarrow> bool" where
  "spec_mask m =
     (case m of
        [d] \<Rightarrow> is_digit d
      | [a, d] \<Rightarrow> ((a = 49 \<or> a = 50) \<and> is_digit d) \<or> (a = 51 \<and> 48 \<le> d \<and> d \<le> 50)
      | _ \<Rightarrow> False)"

text \<open>A whole line \<open>A.B.C.D/M\<close>: one slash, four dot-separated octets before it, a mask
  after it.\<close>

definition spec_cidr :: "pystr \<Rightarrow> bool" where
  "spec_cidr line =
     (case split 47 line of
        [ip, m] \<Rightarrow>
          (case split 46 ip of
             [a, b, c, d] \<Rightarrow> spec_octet a \<and> spec_octet b \<and> spec_octet c \<and> spec_octet d \<and> spec_mask m
           | _ \<Rightarrow> False)
      | _ \<Rightarrow> False)"

text \<open>\<open>re.fullmatch\<close>: the pattern matches the whole text.\<close>

definition fullmatch :: "regex \<Rightarrow> pystr \<Rightarrow> bool" where
  "fullmatch r s = list_ex (\<lambda>rest. rest = []) (rmatch r s)"

text \<open>The language of a pattern.\<close>

primrec lpow :: "nat \<Rightarrow> pystr set \<Rightarrow> pystr set" where
  "lpow 0 L = {[]}"
| "lpow (Suc n) L = {u @ v | u v. u \<in> L \<and> v \<in> lpow n L}"

fun lang :: "regex \<Rightarrow> pystr set" where
  "lang (Chr c) = {[c]}"
| "lang (Rng lo hi) = {[x] | x. lo \<le> x \<and> x \<le> hi}"
| "lang (OneOf cs) = {[x] | x. x \<in> set cs}"
| "lang (Seq r1 r2) = {u @ v | u v. u \<in> lang r1 \<and> v \<in> lang r2}"
| "lang (Alt r1 r2) = lang r1 \<union> lang r2"
| "lang (Opt r) = insert [] (lang r)"
| "lang (Rep n r) = lpow n (lang r)"

text \<open>The input of the worked example of the specification.\<close>

definition example_text :: pystr where
  "example_text = lit ''1.2.3.4/24'' @ [10] @ lit ''999.1.1.1/24'' @ [10] @ lit ''10.0.0.0/33'' @ [10]
     @ lit ''# comment'' @ [10] @ [10]"

text \<open>An input of 2500 validated CIDRs.\<close>

definition many_cidrs :: "pystr list" where
  "many_cidrs = replicate 2500 (lit ''1.2.3.4/24'')"

section \<open>The calendar\<close>

text \<open>The proleptic Gregorian ordinal of a date: 0001-01-01 is day 1.\<close>

definition days_before_year :: "int \<Rightarrow> int" where
  "days_before_year y = (y - 1) * 365 + (y - 1) div 4 - (y - 1) div 100 + (y - 1) div 400"

definition days_before_month :: "int \<Rightarrow> int \<Rightarrow> int" where
  "days_before_month y m = sum_list (map (days_in_month y) [1..m - 1])"

definition ordinal :: "datetime \<Rightarrow> int" where
  "ordinal dt = days_before_year (year dt) + days_before_month (year dt) (month dt) + day dt"

text \<open>The date that a token \<open>YYYYMMDD\<close> denotes.\<close>

definition token_date :: "pystr \<Rightarrow> int \<times> int \<times> int" where
  "token_date tok =
     (int (decimal (take 4 tok)), int (decimal (take 2 (drop 4 tok))), int (decimal (drop 6 tok)))"

section \<open>Splitting and joining\<close>

lemma split_not_Nil [simp]: "split c xs \<noteq> []"
  by (induction xs) (auto split: list.splits)

lemma split_no_sep: "c \<notin> set xs \<Longrightarrow> split c xs = [xs]"
  by (induction xs) auto

lemma split_append: "split c (xs @ c # ys) = split c xs @ split c ys"
proof (induction xs)
  case Nil
  show ?case by simp
next
  case (Cons x xs)
  obtain p ps where "split c xs = p # ps"
    by (cases "split c xs") auto
  with Cons show ?case by simp
qed

lemma split_join:
  "xs \<noteq> [] \<Longrightarrow> \<forall>x\<in>set xs. c \<notin> set x \<Longrightarrow> split c (join [c] xs) = xs"
proof (induction "[c]" xs rule: join.induct)
  case 1
  then show ?case by simp
next
  case (2 x)
  then show ?case by (simp add: split_no_sep)
next
  case (3 x y ys)
  then show ?case by (simp add: split_append split_no_sep)
qed

lemma split_lines:
  "\<forall>l\<in>set ls. 10 \<notin> set l \<Longrightarrow> split 10 (concat (map (\<lambda>l. l @ [10]) ls)) = ls @ [[]]"
  by (induction ls) (auto simp: split_append split_no_sep)

lemma records_lines:
  "\<forall>l\<in>set ls. 10 \<notin> set l \<Longrightarrow> records (concat (map (\<lambda>l. l @ [10]) ls)) = ls"
  by (simp add: records_def split_lines)

section \<open>The partition loop\<close>

lemma chunk_snoc_full:
  assumes "1000 * Suc k \<le> length xs"
  shows "chunk (xs @ [x]) k = chunk xs k"
proof -
  have "1000 \<le> length (drop (1000 * k) xs)" using assms by simp
  then show ?thesis using assms by (simp add: chunk_def)
qed

lemma gen_loop_invariant:
  "addr_pool (foldl gen_step gen_init xs) = drop (1000 * (length xs div 1000)) xs \<and>
   num_line (foldl gen_step gen_init xs) = 1 + int (length xs div 1000) \<and>
   num_id (foldl gen_step gen_init xs) = 60 + int (length xs div 1000) \<and>
   file_text (foldl gen_step gen_init xs) =
     concat (map (\<lambda>k. group_record xs k @ [10]) [0..<length xs div 1000])"
proof (induction xs rule: rev_induct)
  case Nil
  show ?case by (simp add: gen_init_def)
next
  case (snoc x xs)
  define q where "q = length xs div 1000"
  define r where "r = length xs mod 1000"
  define s where "s = foldl gen_step gen_init xs"
  have len: "length xs = 1000 * q + r" and r: "r < 1000"
    by (simp_all add: q_def r_def)
  have pool: "addr_pool s = drop (1000 * q) xs"
    and nl: "num_line s = 1 + int q" and ni: "num_id s = 60 + int q"
    and ft: "file_text s = concat (map (\<lambda>k. group_record xs k @ [10]) [0..<q])"
    using snoc by (simp_all add: s_def q_def)
  have plen: "length (addr_pool s @ [x]) = r + 1"
    using len by (simp add: pool)
  have old: "map (\<lambda>k. group_record (xs @ [x]) k @ [10]) [0..<q]
             = map (\<lambda>k. group_record xs k @ [10]) [0..<q]"
  proof (rule map_cong[OF refl])
    fix k assume "k \<in> set [0..<q]"
    then have "1000 * Suc k \<le> length xs" using len by simp
    then show "group_record (xs @ [x]) k @ [10] = group_record xs k @ [10]"
      by (simp add: group_record_def chunk_snoc_full)
  qed
  show ?case
  proof (cases "r + 1 < 1000")
    case True
    then have q': "length (xs @ [x]) div 1000 = q" using len by simp
    have step: "foldl gen_step gen_init (xs @ [x]) = s\<lparr>addr_pool := addr_pool s @ [x]\<rparr>"
      using True plen by (simp add: s_def[symmetric] gen_step_def Let_def)
    show ?thesis
      unfolding q' step using len by (simp add: pool nl ni ft old)
  next
    case False
    with r have r999: "r = 999" by simp
    then have q': "length (xs @ [x]) div 1000 = Suc q" using len by simp
    have step: "foldl gen_step gen_init (xs @ [x]) =
        s\<lparr>file_text := file_text s @ group_line (num_id s) (num_line s) (addr_pool s @ [x]) @ [10],
          num_id := num_id s + 1, num_line := num_line s + 1, addr_pool := []\<rparr>"
      using False plen by (simp add: s_def[symmetric] gen_step_def Let_def)
    have last: "addr_pool s @ [x] = chunk (xs @ [x]) q"
      using len r999 by (simp add: pool chunk_def)
    then have new: "group_line (num_id s) (num_line s) (addr_pool s @ [x]) = group_record (xs @ [x]) q"
      by (simp add: group_record_def nl ni)
    show ?thesis
      unfolding q' step new using len r999
      by (simp add: nl ni ft old)
  qed
qed

lemma gen_final_text:
  "file_text (gen_final cidrs) = concat (map (\<lambda>k. group_record cidrs k @ [10]) [0..<ngroups cidrs])"
  and gen_final_num_line: "num_line (gen_final cidrs) = 1 + int (ngroups cidrs)"
proof -
  define q where "q = length cidrs div 1000"
  define r where "r = length cidrs mod 1000"
  define s where "s = foldl gen_step gen_init cidrs"
  have len: "length cidrs = 1000 * q + r" and r: "r < 1000"
    by (simp_all add: q_def r_def)
  have pool: "addr_pool s = drop (1000 * q) cidrs"
    and nl: "num_line s = 1 + int q" and ni: "num_id s = 60 + int q"
    and ft: "file_text s = concat (map (\<lambda>k. group_record cidrs k @ [10]) [0..<q])"
    using gen_loop_invariant[of cidrs] by (simp_all add: s_def q_def)
  have "file_text (gen_flush s) = concat (map (\<lambda>k. group_record cidrs k @ [10]) [0..<ngroups cidrs])
      \<and> num_line (gen_flush s) = 1 + int (ngroups cidrs)"
  proof (cases "r = 0")
    case True
    then have "addr_pool s = []" "ngroups cidrs = q"
      using len by (simp_all add: pool ngroups_def)
    then show ?thesis by (simp add: gen_flush_def ft nl)
  next
    case False
    then have ne: "addr_pool s \<noteq> []" using len by (simp add: pool)
    have ng: "ngroups cidrs = Suc q" using False r len by (simp add: ngroups_def)
    have "addr_pool s = chunk cidrs q" using len r by (simp add: pool chunk_def)
    then have "group_line (num_id s) (num_line s) (addr_pool s) = group_record cidrs q"
      by (simp add: group_record_def nl ni)
    then show ?thesis using ne by (simp add: gen_flush_def ft nl ng)
  qed
  then show "file_text (gen_final cidrs) = concat (map (\<lambda>k. group_record cidrs k @ [10]) [0..<ngroups cidrs])"
    and "num_line (gen_final cidrs) = 1 + int (ngroups cidrs)"
    by (simp_all add: gen_final_def s_def)
qed

section \<open>The pattern and the grammar\<close>

lemma seq_rests:
  "(\<Union>x\<in>{x. \<exists>u\<in>A. s = u @ x}. {rest. \<exists>v\<in>B. x = v @ rest})
     = {rest. \<exists>w\<in>{u @ v | u v. u \<in> A \<and> v \<in> B}. s = w @ rest}"
proof (intro set_eqI iffI)
  fix rest
  assume "rest \<in> (\<Union>x\<in>{x. \<exists>u\<in>A. s = u @ x}. {rest. \<exists>v\<in>B. x = v @ rest})"
  then obtain u v where "u \<in> A" "v \<in> B" "s = u @ v @ rest" by auto
  then have "u @ v \<in> {u @ v | u v. u \<in> A \<and> v \<in> B}" "s = (u @ v) @ rest" by auto
  then show "rest \<in> {rest. \<exists>w\<in>{u @ v | u v. u \<in> A \<and> v \<in> B}. s = w @ rest}" by blast
next
  fix rest
  assume "rest \<in> {rest. \<exists>w\<in>{u @ v | u v. u \<in> A \<and> v \<in> B}. s = w @ rest}"
  then obtain u v where uv: "u \<in> A" "v \<in> B" "s = u @ (v @ rest)" by auto
  then have "v @ rest \<in> {x. \<exists>u\<in>A. s = u @ x}" by blast
  moreover have "rest \<in> {r. \<exists>v'\<in>B. v @ rest = v' @ r}" using uv by blast
  ultimately show "rest \<in> (\<Union>x\<in>{x. \<exists>u\<in>A. s = u @ x}. {rest. \<exists>v\<in>B. x = v @ rest})"
    by blast
qed

lemma rmatch_lang: "set (rmatch r s) = {rest. \<exists>w\<in>lang r. s = w @ rest}"
proof (induction r s rule: rmatch.induct)
  case (1 c s)
  then show ?case by (cases s) auto
next
  case (2 lo hi s)
  then show ?case by (cases s) auto
next
  case (3 cs s)
  then show ?case by (cases s) auto
next
  case (4 r1 r2 s)
  have "set (rmatch (Seq r1 r2) s) = (\<Union>x\<in>set (rmatch r1 s). set (rmatch r2 x))"
    by simp
  also have "\<dots> = (\<Union>x\<in>{x. \<exists>u\<in>lang r1. s = u @ x}. {rest. \<exists>v\<in>lang r2. x = v @ rest})"
    using 4 by simp
  finally show ?case by (simp only: seq_rests lang.simps)
next
  case (5 r1 r2 s)
  then show ?case by auto
next
  case (6 r s)
  then show ?case by auto
next
  case (7 r s)
  then show ?case by simp
next
  case (8 n r s)
  have "set (rmatch (Rep (Suc n) r) s) = (\<Union>x\<in>set (rmatch r s). set (rmatch (Rep n r) x))"
    by simp
  also have "\<dots> = (\<Union>x\<in>{x. \<exists>u\<in>lang r. s = u @ x}. {rest. \<exists>v\<in>lpow n (lang r). x = v @ rest})"
    using 8 by simp
  finally show ?case by (simp only: seq_rests lang.simps lpow.simps)
qed

lemma lang_full: "x \<in> lang r \<longleftrightarrow> [] \<in> set (rmatch r x)"
  by (simp add: rmatch_lang)

lemma octet_lang_len: "x \<in> lang octet_re \<Longrightarrow> 1 \<le> length x \<and> length x \<le> 3"
  by (auto simp: octet_re_def)

lemma octet_lang: "x \<in> lang octet_re \<longleftrightarrow> spec_octet x"
proof (cases "1 \<le> length x \<and> length x \<le> 3")
  case False
  then show ?thesis using octet_lang_len[of x] by (auto simp: spec_octet_def)
next
  case True
  then consider a where "x = [a]" | a b where "x = [a, b]" | a b c where "x = [a, b, c]"
    by (cases x rule: list.exhaust; simp; cases "tl x"; simp; cases "tl (tl x)"; simp; cases "tl (tl (tl x))"; simp)
  then show ?thesis
  proof cases
    case 1
    then show ?thesis
      unfolding lang_full octet_re_def
      by (auto simp: spec_octet_def is_digit_def decimal_def)
  next
    case 2
    then show ?thesis
      unfolding lang_full octet_re_def
      by (auto simp: spec_octet_def is_digit_def decimal_def)
  next
    case 3
    then show ?thesis
      unfolding lang_full octet_re_def
      by (auto simp: spec_octet_def is_digit_def decimal_def)
  qed
qed


lemma mask_lang_len: "x \<in> lang mask_re \<Longrightarrow> 1 \<le> length x \<and> length x \<le> 2"
  by (auto simp: mask_re_def)

lemma mask_lang: "x \<in> lang mask_re \<longleftrightarrow> spec_mask x"
proof (cases "1 \<le> length x \<and> length x \<le> 2")
  case False
  then show ?thesis using mask_lang_len[of x]
    by (auto simp: spec_mask_def split: list.splits)
next
  case True
  then consider a where "x = [a]" | a b where "x = [a, b]"
    by (cases x rule: list.exhaust; simp; cases "tl x"; simp; cases "tl (tl x)"; simp)
  then show ?thesis
  proof cases
    case 1
    then show ?thesis
      unfolding lang_full mask_re_def
      by (auto simp: spec_mask_def is_digit_def)
  next
    case 2
    then show ?thesis
      unfolding lang_full mask_re_def
      by (auto simp: spec_mask_def is_digit_def)
  qed
qed

lemma cidr_lang:
  "x \<in> lang cidr_re \<longleftrightarrow>
     (\<exists>a b c d m. x = a @ [46] @ b @ [46] @ c @ [46] @ d @ [47] @ m
        \<and> a \<in> lang octet_re \<and> b \<in> lang octet_re \<and> c \<in> lang octet_re \<and> d \<in> lang octet_re
        \<and> m \<in> lang mask_re)"
proof
  assume "x \<in> lang cidr_re"
  then show "\<exists>a b c d m. x = a @ [46] @ b @ [46] @ c @ [46] @ d @ [47] @ m
        \<and> a \<in> lang octet_re \<and> b \<in> lang octet_re \<and> c \<in> lang octet_re \<and> d \<in> lang octet_re
        \<and> m \<in> lang mask_re"
    by (auto simp: cidr_re_def numeral_3_eq_3) blast
next
  assume "\<exists>a b c d m. x = a @ [46] @ b @ [46] @ c @ [46] @ d @ [47] @ m
        \<and> a \<in> lang octet_re \<and> b \<in> lang octet_re \<and> c \<in> lang octet_re \<and> d \<in> lang octet_re
        \<and> m \<in> lang mask_re"
  then obtain a b c d m where x: "x = a @ [46] @ b @ [46] @ c @ [46] @ d @ [47] @ m"
    and ok: "a \<in> lang octet_re" "b \<in> lang octet_re" "c \<in> lang octet_re" "d \<in> lang octet_re"
      "m \<in> lang mask_re"
    by blast
  let ?L = "lang (Seq octet_re (Chr 46))"
  have dots: "a @ [46] \<in> ?L" "b @ [46] \<in> ?L" "c @ [46] \<in> ?L"
    using ok by simp_all
  have "(c @ [46]) @ [] \<in> lpow (Suc 0) ?L"
    using dots(3) by (simp del: lang.simps)
  then have "(b @ [46]) @ (c @ [46]) @ [] \<in> lpow (Suc (Suc 0)) ?L"
    using dots(2) unfolding lpow.simps(2)[of "Suc 0"] by blast
  then have "(a @ [46]) @ (b @ [46]) @ (c @ [46]) @ [] \<in> lpow (Suc (Suc (Suc 0))) ?L"
    using dots(1) unfolding lpow.simps(2)[of "Suc (Suc 0)"] by blast
  then have three: "a @ [46] @ b @ [46] @ c @ [46] \<in> lang (Rep 3 (Seq octet_re (Chr 46)))"
    by (simp add: numeral_3_eq_3 del: lpow.simps)
  have "[47] @ m \<in> lang (Seq (Chr 47) mask_re)"
    using ok by simp
  then have "d @ [47] @ m \<in> lang (Seq octet_re (Seq (Chr 47) mask_re))"
    using ok(4) unfolding lang.simps(4)[of octet_re] by blast
  then have "(a @ [46] @ b @ [46] @ c @ [46]) @ (d @ [47] @ m) \<in> lang cidr_re"
    using three unfolding cidr_re_def lang.simps(4)[of "Rep 3 (Seq octet_re (Chr 46))"] by blast
  then show "x \<in> lang cidr_re" by (simp add: x)
qed

lemma join_split: "join [c] (split c s) = s"
proof (induction s)
  case Nil
  show ?case by simp
next
  case (Cons x s)
  obtain p ps where sp: "split c s = p # ps" by (cases "split c s") auto
  with Cons show ?case by (cases ps) auto
qed

lemma split_pieces: "p \<in> set (split c s) \<Longrightarrow> c \<notin> set p"
proof (induction s arbitrary: p)
  case Nil
  then show ?case by simp
next
  case (Cons x s)
  obtain q qs where sp: "split c s = q # qs" by (cases "split c s") auto
  with Cons show ?case by (auto split: if_splits)
qed

lemma spec_octet_digits: "spec_octet x \<Longrightarrow> set x \<subseteq> {48..57}"
  by (auto simp: spec_octet_def is_digit_def list_all_iff)

lemma spec_mask_digits: "spec_mask x \<Longrightarrow> set x \<subseteq> {48..57}"
  by (auto simp: spec_mask_def is_digit_def split: list.splits)

lemma spec_cidr_iff:
  "spec_cidr x \<longleftrightarrow>
     (\<exists>a b c d m. x = a @ [46] @ b @ [46] @ c @ [46] @ d @ [47] @ m
        \<and> spec_octet a \<and> spec_octet b \<and> spec_octet c \<and> spec_octet d \<and> spec_mask m)"
proof
  assume "spec_cidr x"
  then obtain ip m a b c d where s1: "split 47 x = [ip, m]" and s2: "split 46 ip = [a, b, c, d]"
    and ok: "spec_octet a" "spec_octet b" "spec_octet c" "spec_octet d" "spec_mask m"
    by (auto simp: spec_cidr_def split: list.splits)
  have "x = join [47] [ip, m]" using join_split[of 47 x] s1 by simp
  moreover have "ip = join [46] [a, b, c, d]" using join_split[of 46 ip] s2 by simp
  ultimately have "x = a @ [46] @ b @ [46] @ c @ [46] @ d @ [47] @ m" by simp
  with ok show "\<exists>a b c d m. x = a @ [46] @ b @ [46] @ c @ [46] @ d @ [47] @ m
        \<and> spec_octet a \<and> spec_octet b \<and> spec_octet c \<and> spec_octet d \<and> spec_mask m"
    by blast
next
  assume "\<exists>a b c d m. x = a @ [46] @ b @ [46] @ c @ [46] @ d @ [47] @ m
        \<and> spec_octet a \<and> spec_octet b \<and> spec_octet c \<and> spec_octet d \<and> spec_mask m"
  then obtain a b c d m where x: "x = a @ [46] @ b @ [46] @ c @ [46] @ d @ [47] @ m"
    and ok: "spec_octet a" "spec_octet b" "spec_octet c" "spec_octet d" "spec_mask m"
    by blast
  have dig: "set a \<subseteq> {48..57}" "set b \<subseteq> {48..57}" "set c \<subseteq> {48..57}" "set d \<subseteq> {48..57}"
    "set m \<subseteq> {48..57}"
    using ok by (simp_all add: spec_octet_digits spec_mask_digits)
  define ip where "ip = a @ [46] @ b @ [46] @ c @ [46] @ d"
  have no47: "47 \<notin> set ip" "47 \<notin> set m" using dig by (auto simp: ip_def)
  have no46: "46 \<notin> set a" "46 \<notin> set b" "46 \<notin> set c" "46 \<notin> set d" using dig by auto
  have "x = ip @ 47 # m" by (simp add: x ip_def)
  then have s1: "split 47 x = [ip, m]"
    using no47 by (simp add: split_append split_no_sep)
  have "ip = a @ 46 # b @ 46 # c @ 46 # d" by (simp add: ip_def)
  then have s2: "split 46 ip = [a, b, c, d]"
    using no46 by (simp add: split_append split_no_sep)
  show "spec_cidr x" using ok by (simp add: spec_cidr_def s1 s2)
qed

lemma cidr_lang_spec: "x \<in> lang cidr_re \<longleftrightarrow> spec_cidr x"
  by (simp add: cidr_lang spec_cidr_iff octet_lang mask_lang)

lemma spec_cidr_chars: "spec_cidr x \<Longrightarrow> set x \<subseteq> {46, 47} \<union> {48..57}"
proof -
  assume "spec_cidr x"
  then obtain a b c d m where x: "x = a @ [46] @ b @ [46] @ c @ [46] @ d @ [47] @ m"
    and ok: "spec_octet a" "spec_octet b" "spec_octet c" "spec_octet d" "spec_mask m"
    unfolding spec_cidr_iff by blast
  have "set a \<subseteq> {48..57}" "set b \<subseteq> {48..57}" "set c \<subseteq> {48..57}" "set d \<subseteq> {48..57}"
    "set m \<subseteq> {48..57}"
    using ok by (simp_all add: spec_octet_digits spec_mask_digits)
  then show ?thesis unfolding x by auto
qed

lemma cidr_pattern_match_iff:
  "cidr_pattern_match line \<longleftrightarrow> spec_cidr line \<or> (\<exists>w. line = w @ [10] \<and> spec_cidr w)"
proof -
  have "cidr_pattern_match line \<longleftrightarrow> (\<exists>rest\<in>set (rmatch cidr_re line). rest = [] \<or> rest = [10])"
    by (simp add: cidr_pattern_match_def match_anchored_def list_ex_iff at_dollar_def)
  also have "\<dots> \<longleftrightarrow> line \<in> lang cidr_re \<or> (\<exists>w\<in>lang cidr_re. line = w @ [10])"
    unfolding rmatch_lang by auto
  finally show ?thesis by (auto simp: cidr_lang_spec)
qed

lemma strip_last: "strip s = w @ [c] \<Longrightarrow> \<not> isspace c"
proof -
  assume "strip s = w @ [c]"
  then have "dropWhile isspace (rev (dropWhile isspace s)) = c # rev w"
    unfolding strip_def by (metis rev.simps(2) rev_rev_ident rev_append append_Nil rev_singleton_conv)
  then show ?thesis by (metis hd_dropWhile list.sel(1) list.distinct(1))
qed

lemma cidr_pattern_match_strip: "cidr_pattern_match (strip l) \<longleftrightarrow> spec_cidr (strip l)"
  using strip_last[of l _ 10] by (auto simp: cidr_pattern_match_iff isspace_def)

section \<open>The scan\<close>

lemma scan_step_cidrs:
  "scan_cidrs (scan_step st nl) =
     scan_cidrs st @ (if \<not> skip_line (strip (snd nl)) \<and> cidr_pattern_match (strip (snd nl)) then [strip (snd nl)] else [])"
  by (simp add: scan_step_def Let_def)

lemma scan_step_skipped:
  "scan_skipped (scan_step st nl) =
     scan_skipped st @ (if \<not> skip_line (strip (snd nl)) \<and> \<not> cidr_pattern_match (strip (snd nl)) then [(fst nl, strip (snd nl))] else [])"
  by (simp add: scan_step_def Let_def)

lemma scan_fold_cidrs:
  "scan_cidrs (foldl scan_step st nls) =
     scan_cidrs st @ filter cidr_pattern_match (filter (\<lambda>l. \<not> skip_line l) (map (\<lambda>nl. strip (snd nl)) nls))"
  by (induction nls arbitrary: st) (simp_all add: scan_step_cidrs)

lemma scan_fold_skipped:
  "scan_skipped (foldl scan_step st nls) =
     scan_skipped st @ map (\<lambda>nl. (fst nl, strip (snd nl)))
       (filter (\<lambda>nl. \<not> skip_line (strip (snd nl)) \<and> \<not> cidr_pattern_match (strip (snd nl))) nls)"
  by (induction nls arbitrary: st) (simp_all add: scan_step_skipped)


lemma map_strip_enumerate:
  "map (\<lambda>nl. strip (snd nl)) (enumerate n xs) = map strip xs"
  by (induction xs arbitrary: n) simp_all

lemma filter_match_strip:
  "filter cidr_pattern_match (filter (\<lambda>l. \<not> skip_line l) (map strip ls))
     = filter spec_cidr (filter (\<lambda>l. \<not> skip_line l) (map strip ls))"
  by (induction ls) (simp_all add: cidr_pattern_match_strip)

lemma scan_cidrs_eq:
  "scan_cidrs (scan text) =
     filter spec_cidr (filter (\<lambda>l. \<not> skip_line l) (map strip (splitlines text)))"
proof -
  have "scan_cidrs (scan text) =
      filter cidr_pattern_match (filter (\<lambda>l. \<not> skip_line l) (map strip (splitlines text)))"
    by (simp add: scan_def scan_fold_cidrs map_strip_enumerate del: filter_filter)
  then show ?thesis by (simp only: filter_match_strip)
qed

lemma scan_skipped_eq:
  "scan_skipped (scan text) =
     map (\<lambda>nl. (fst nl, strip (snd nl)))
       (filter (\<lambda>nl. \<not> skip_line (strip (snd nl)) \<and> \<not> spec_cidr (strip (snd nl)))
          (enumerate 1 (splitlines text)))"
  by (simp add: scan_def scan_fold_skipped cidr_pattern_match_strip)

lemma spec_mask_range: "spec_mask m \<Longrightarrow> decimal m \<le> 32"
proof -
  assume m: "spec_mask m"
  then consider d where "m = [d]" | a d where "m = [a, d]"
    by (auto simp: spec_mask_def split: list.splits)
  then show ?thesis
  proof cases
    case 1
    with m show ?thesis by (auto simp: spec_mask_def decimal_def is_digit_def)
  next
    case 2
    with m show ?thesis by (auto simp: spec_mask_def decimal_def is_digit_def)
  qed
qed

lemma strip_blank: "list_all isspace l \<Longrightarrow> strip l = []"
  by (auto simp: strip_def list_all_iff dest: set_dropWhileD)

section \<open>The lines of the group file\<close>

lemma str_nat_digits: "set (str_nat n) \<subseteq> {48..57}"
proof (induction n rule: str_nat.induct)
  case (1 n)
  show ?case
  proof (cases "n < 10")
    case True
    then show ?thesis by (subst str_nat.simps) simp
  next
    case False
    have "n mod 10 < 10" by simp
    then have "48 + n mod 10 \<in> {48..57}" by auto
    with False 1 show ?thesis by (subst str_nat.simps) simp
  qed
qed

lemma str_nat_not_Nil: "str_nat n \<noteq> []"
  by (subst str_nat.simps) simp

lemma decimal_snoc: "decimal (xs @ [c]) = 10 * decimal xs + (c - 48)"
  by (simp add: decimal_def)

lemma decimal_str_nat: "decimal (str_nat n) = n"
proof (induction n rule: str_nat.induct)
  case (1 n)
  show ?case
  proof (cases "n < 10")
    case True
    then show ?thesis by (subst str_nat.simps) (simp add: decimal_def)
  next
    case False
    with 1 have "decimal (str_nat (n div 10)) = n div 10" by simp
    with False show ?thesis by (subst str_nat.simps) (simp add: decimal_snoc)
  qed
qed

lemma str_nat_inj: "str_nat m = str_nat n \<Longrightarrow> m = n"
  by (metis decimal_str_nat)

lemma str_int_chars: "set (str_int i) \<subseteq> insert 45 {48..57}"
  using str_nat_digits by (auto simp: str_int_def)

lemma str_int_inj: "0 \<le> i \<Longrightarrow> 0 \<le> j \<Longrightarrow> str_int i = str_int j \<Longrightarrow> i = j"
  by (auto simp: str_int_def dest: str_nat_inj)

lemma group_name_chars: "set (group_name i) \<subseteq> {22269, 20869, 73, 80, 45} \<union> {48..57}"
  using str_int_chars[of i] by (auto simp: group_name_def name_prefix_def lit_def)

lemma join_chars: "set (join sep xs) \<subseteq> set sep \<union> \<Union>(set ` set xs)"
  by (induction sep xs rule: join.induct) auto

lemma group_line_alt:
  "group_line nid nline pool =
     lit ''id='' @ str_int nid @ lit '' comment= type=0 group_name='' @ group_name nline
       @ lit '' addr_pool='' @ join (lit '','') pool"
  by (simp add: group_line_def group_name_def name_prefix_def)

lemma group_line_tokens:
  assumes "32 \<notin> set (join (lit '','') pool)"
  shows "split 32 (group_line nid nline pool) =
    [lit ''id='' @ str_int nid, lit ''comment='', lit ''type=0'',
     lit ''group_name='' @ group_name nline, lit ''addr_pool='' @ join (lit '','') pool]"
proof -
  have a: "32 \<notin> set (lit ''id='' @ str_int nid)"
    using str_int_chars[of nid] by (auto simp: lit_def)
  have b: "32 \<notin> set (lit ''comment='')" "32 \<notin> set (lit ''type=0'')"
    by (simp_all add: lit_def)
  have c: "32 \<notin> set (lit ''group_name='' @ group_name nline)"
    using group_name_chars[of nline] by (auto simp: lit_def)
  have d: "32 \<notin> set (lit ''addr_pool='' @ join (lit '','') pool)"
    using assms by (auto simp: lit_def)
  have "group_line nid nline pool =
      (lit ''id='' @ str_int nid) @ 32 # lit ''comment='' @ 32 # lit ''type=0'' @ 32 #
      (lit ''group_name='' @ group_name nline) @ 32 # (lit ''addr_pool='' @ join (lit '','') pool)"
    by (simp add: group_line_alt lit_def)
  then have "split 32 (group_line nid nline pool) =
      split 32 (lit ''id='' @ str_int nid) @ split 32 (lit ''comment='') @ split 32 (lit ''type=0'') @
      split 32 (lit ''group_name='' @ group_name nline) @
      split 32 (lit ''addr_pool='' @ join (lit '','') pool)"
    by (simp only: split_append)
  then show ?thesis
    by (simp only: split_no_sep[OF a] split_no_sep[OF b(1)] split_no_sep[OF b(2)]
        split_no_sep[OF c] split_no_sep[OF d] append_Cons append_Nil)
qed

lemma group_line_fields:
  assumes "32 \<notin> set (join (lit '','') pool)"
  shows "field ''id'' (group_line nid nline pool) = Some (str_int nid)"
    and "field ''group_name'' (group_line nid nline pool) = Some (group_name nline)"
    and "field ''addr_pool'' (group_line nid nline pool) = Some (join (lit '','') pool)"
  unfolding field_def group_line_tokens[OF assms]
  by (simp_all add: starts_with_def lit_def)


lemma spec_cidr_no_sep:
  assumes "spec_cidr c"
  shows "10 \<notin> set c" "32 \<notin> set c" "44 \<notin> set c"
  using spec_cidr_chars[OF assms] by auto

lemma join_valid_chars:
  assumes "\<forall>c\<in>set pool. spec_cidr c"
  shows "10 \<notin> set (join (lit '','') pool)" "32 \<notin> set (join (lit '','') pool)"
proof -
  have "set (join (lit '','') pool) \<subseteq> {44} \<union> \<Union>(set ` set pool)"
    using join_chars[of "lit '',''" pool] by (simp add: lit_def)
  moreover have "\<Union>(set ` set pool) \<subseteq> {46, 47} \<union> {48..57}"
    using assms spec_cidr_chars by blast
  ultimately have "set (join (lit '','') pool) \<subseteq> {44, 46, 47} \<union> {48..57}" by blast
  then show "10 \<notin> set (join (lit '','') pool)" "32 \<notin> set (join (lit '','') pool)" by auto
qed

lemma group_line_no_newline:
  assumes "\<forall>c\<in>set pool. spec_cidr c"
  shows "10 \<notin> set (group_line nid nline pool)"
  using join_valid_chars(1)[OF assms] str_int_chars[of nid] group_name_chars[of nline]
  by (auto simp: group_line_alt lit_def)

lemma chunk_subset: "set (chunk xs k) \<subseteq> set xs"
  unfolding chunk_def by (meson set_take_subset set_drop_subset subset_trans)

lemma chunk_length: "length (chunk xs k) = min (length xs - 1000 * k) 1000"
  by (simp add: chunk_def)

lemma ngroups_less: "k < ngroups xs \<longleftrightarrow> 1000 * k < length xs"
proof -
  have "k < ngroups xs \<longleftrightarrow> Suc k \<le> (length xs + 999) div 1000"
    by (simp add: ngroups_def Suc_le_eq)
  also have "\<dots> \<longleftrightarrow> Suc k * 1000 \<le> length xs + 999"
    by (rule less_eq_div_iff_mult_less_eq) simp
  also have "\<dots> \<longleftrightarrow> 1000 * k < length xs" by (simp only: mult_Suc) arith
  finally show ?thesis .
qed

lemma take_chunks: "concat (map (chunk xs) [0..<m]) = take (1000 * m) xs"
proof (induction m)
  case 0
  show ?case by simp
next
  case (Suc m)
  have "take (1000 * m) xs @ take 1000 (drop (1000 * m) xs) = take (1000 * m + 1000) xs"
    by (simp add: take_add)
  with Suc show ?case by (simp add: chunk_def add.commute)
qed

lemma concat_chunks: "concat (map (chunk xs) [0..<ngroups xs]) = xs"
proof -
  have "length xs \<le> 1000 * ngroups xs" using ngroups_less[of "ngroups xs" xs] by simp
  then show ?thesis by (simp add: take_chunks)
qed

lemma group_file_records:
  assumes "\<forall>c\<in>set cidrs. spec_cidr c"
  shows "records (file_text (gen_final cidrs)) = map (group_record cidrs) [0..<ngroups cidrs]"
proof -
  have "\<forall>l\<in>set (map (group_record cidrs) [0..<ngroups cidrs]). 10 \<notin> set l"
  proof
    fix l assume "l \<in> set (map (group_record cidrs) [0..<ngroups cidrs])"
    then obtain k where l: "l = group_record cidrs k" by auto
    have "\<forall>c\<in>set (chunk cidrs k). spec_cidr c" using assms chunk_subset[of cidrs k] by blast
    then show "10 \<notin> set l" unfolding l group_record_def by (rule group_line_no_newline)
  qed
  then have "records (concat (map (\<lambda>l. l @ [10]) (map (group_record cidrs) [0..<ngroups cidrs])))
      = map (group_record cidrs) [0..<ngroups cidrs]"
    by (rule records_lines)
  moreover have "file_text (gen_final cidrs) =
      concat (map (\<lambda>l. l @ [10]) (map (group_record cidrs) [0..<ngroups cidrs]))"
    unfolding gen_final_text by (simp only: map_map comp_def)
  ultimately show ?thesis by (simp only:)
qed

lemma group_record_fields:
  assumes "\<forall>c\<in>set cidrs. spec_cidr c" and "k < ngroups cidrs"
  shows "field ''id'' (group_record cidrs k) = Some (str_int (60 + int k))"
    and "field ''group_name'' (group_record cidrs k) = Some (group_name (1 + int k))"
    and "field ''addr_pool'' (group_record cidrs k) = Some (join (lit '','') (chunk cidrs k))"
    and "members (group_record cidrs k) = Some (chunk cidrs k)"
    and "join (lit '','') (chunk cidrs k) \<noteq> []"
proof -
  have v: "\<forall>c\<in>set (chunk cidrs k). spec_cidr c"
    using assms(1) chunk_subset[of cidrs k] by blast
  have sp: "32 \<notin> set (join (lit '','') (chunk cidrs k))" using v by (rule join_valid_chars(2))
  show "field ''id'' (group_record cidrs k) = Some (str_int (60 + int k))"
    and "field ''group_name'' (group_record cidrs k) = Some (group_name (1 + int k))"
    and f: "field ''addr_pool'' (group_record cidrs k) = Some (join (lit '','') (chunk cidrs k))"
    unfolding group_record_def by (rule group_line_fields[OF sp])+
  have ne: "chunk cidrs k \<noteq> []"
    using assms(2) chunk_length[of cidrs k] by (auto simp: ngroups_less)
  have "\<forall>c\<in>set (chunk cidrs k). 44 \<notin> set c"
  proof
    fix c assume "c \<in> set (chunk cidrs k)"
    with v have "spec_cidr c" by blast
    then show "44 \<notin> set c" by (rule spec_cidr_no_sep(3))
  qed
  then have "split 44 (join [44] (chunk cidrs k)) = chunk cidrs k"
    using ne by (simp add: split_join)
  then show "members (group_record cidrs k) = Some (chunk cidrs k)"
    by (simp add: members_def f lit_def)
  show "join (lit '','') (chunk cidrs k) \<noteq> []"
  proof
    assume "join (lit '','') (chunk cidrs k) = []"
    then have "split 44 (join [44] (chunk cidrs k)) = [[]]" by (simp add: lit_def)
    with \<open>split 44 (join [44] (chunk cidrs k)) = chunk cidrs k\<close> have "chunk cidrs k = [[]]"
      by simp
    then have "[] \<in> set (chunk cidrs k)" by simp
    with v have "spec_cidr []" by blast
    then show False by (simp add: spec_cidr_def)
  qed
qed

lemma generate_ip_groups_result:
  assumes "generate_ip_groups cidrs data_date fs = (fs', path, total_groups)"
  shows "path = group_filename data_date" and "fs' path = Some (file_text (gen_final cidrs))"
    and "total_groups = int (ngroups cidrs)"
  using assms by (auto simp: generate_ip_groups_def Let_def gen_final_num_line)

lemma join_Cons: "ys \<noteq> [] \<Longrightarrow> join sep (x # ys) = x @ sep @ join sep ys"
  by (cases ys) simp_all

lemma join_append:
  "xs \<noteq> [] \<Longrightarrow> ys \<noteq> [] \<Longrightarrow> join sep (xs @ ys) = join sep xs @ sep @ join sep ys"
proof (induction sep xs rule: join.induct)
  case (1 sep)
  then show ?case by simp
next
  case (2 sep x)
  then show ?case by (simp add: join_Cons)
next
  case (3 sep x y zs)
  then show ?case by simp
qed

lemma join_concat:
  "\<forall>p\<in>set pools. p \<noteq> [] \<Longrightarrow> join sep (map (join sep) pools) = join sep (concat pools)"
proof (induction pools)
  case Nil
  show ?case by simp
next
  case (Cons p ps)
  show ?case
  proof (cases "ps = []")
    case True
    then show ?thesis by simp
  next
    case False
    then obtain q qs where ps: "ps = q # qs" by (cases ps) auto
    have ne: "p \<noteq> []" "concat ps \<noteq> []" using Cons.prems by (auto simp: ps)
    have "join sep (map (join sep) (p # ps)) = join sep p @ sep @ join sep (map (join sep) ps)"
      using False by (simp add: join_Cons)
    also have "\<dots> = join sep p @ sep @ join sep (concat ps)"
      using Cons by simp
    also have "\<dots> = join sep (p @ concat ps)"
      using ne by (simp add: join_append)
    finally show ?thesis by simp
  qed
qed

section \<open>The line of the ACL file\<close>

lemma acl_rule_tokens:
  assumes "32 \<notin> set x"
  shows "split 32 (acl_rule x) =
    [lit ''id=60'', lit ''enabled=yes'', lit ''comment='' @ [20801, 35768, 22269, 20869] @ lit ''IP'' @ [35775, 38382],
     lit ''action=accept'', lit ''dir=forward'', lit ''ctdir=1'', lit ''iinterface=any'',
     lit ''ointerface=any'', lit ''src_addr='' @ x, lit ''dst_addr='', lit ''src6_addr='',
     lit ''dst6_addr='', lit ''src6_mode=0'', lit ''dst6_mode=0'', lit ''src6_suffix='',
     lit ''dst6_suffix='', lit ''src6_mac='', lit ''dst6_mac='', lit ''protocol=any'',
     lit ''src_port='', lit ''dst_port='', lit ''week=1234567'', lit ''time=00:00-23:59'',
     lit ''ip_type=4'']"
proof -
  define p where "p = lit ''id=60 enabled=yes comment='' @ [20801, 35768, 22269, 20869] @ lit ''IP''
     @ [35775, 38382] @ lit '' action=accept dir=forward ctdir=1 iinterface=any ointerface=any''"
  define q where "q = lit ''dst_addr= src6_addr= dst6_addr= src6_mode=0 dst6_mode=0 src6_suffix= dst6_suffix= src6_mac= dst6_mac= protocol=any src_port= dst_port= week=1234567 time=00:00-23:59 ip_type=4''"
  have shape: "acl_rule x = p @ 32 # (lit ''src_addr='' @ x) @ 32 # q"
    by (simp add: acl_rule_def p_def q_def lit_def)
  have mid: "32 \<notin> set (lit ''src_addr='' @ x)" using assms by (simp add: lit_def)
  have sp: "split 32 p =
    [lit ''id=60'', lit ''enabled=yes'', lit ''comment='' @ [20801, 35768, 22269, 20869] @ lit ''IP'' @ [35775, 38382],
     lit ''action=accept'', lit ''dir=forward'', lit ''ctdir=1'', lit ''iinterface=any'',
     lit ''ointerface=any'']"
    by (simp add: p_def lit_def)
  have sq: "split 32 q =
    [lit ''dst_addr='', lit ''src6_addr='',
     lit ''dst6_addr='', lit ''src6_mode=0'', lit ''dst6_mode=0'', lit ''src6_suffix='',
     lit ''dst6_suffix='', lit ''src6_mac='', lit ''dst6_mac='', lit ''protocol=any'',
     lit ''src_port='', lit ''dst_port='', lit ''week=1234567'', lit ''time=00:00-23:59'',
     lit ''ip_type=4'']"
    by (simp add: q_def lit_def)
  have "split 32 (acl_rule x) = split 32 p @ split 32 (lit ''src_addr='' @ x) @ split 32 q"
    unfolding shape by (simp only: split_append)
  then show ?thesis
    by (simp only: sp sq split_no_sep[OF mid] append_Cons append_Nil)
qed

lemma acl_rule_fields:
  assumes "32 \<notin> set x"
  shows "field ''src_addr'' (acl_rule x) = Some x"
    and "field ''id'' (acl_rule x) = Some (lit ''60'')"
  unfolding field_def acl_rule_tokens[OF assms]
  by (simp_all add: starts_with_def lit_def)

lemma acl_rule_no_newline: "10 \<notin> set x \<Longrightarrow> 10 \<notin> set (acl_rule x)"
  by (simp add: acl_rule_def lit_def)

lemma names_eq: "(\<lambda>i. [22269, 20869] @ lit ''IP-'' @ str_int i) = group_name"
  by (rule ext) (simp add: group_name_def name_prefix_def)

lemma generate_acl_rules_result:
  assumes "generate_acl_rules num_groups data_date fs = (fs', path)"
  shows "path = acl_filename data_date"
    and "fs' path = Some (acl_rule (join (lit '','') (map group_name [1..num_groups])) @ [10])"
    and "p \<noteq> path \<Longrightarrow> fs' p = remove_if_exists path fs p"
  using assms
  by (auto simp only: generate_acl_rules_def Let_def names_eq prod.inject fun_upd_apply split: if_splits)

lemma names_chars:
  "set (join (lit '','') (map group_name is)) \<subseteq> {44, 22269, 20869, 73, 80, 45} \<union> {48..57}"
proof -
  have "set (join (lit '','') (map group_name is)) \<subseteq> {44} \<union> \<Union>(set ` set (map group_name is))"
    using join_chars[of "lit '',''" "map group_name is"] by (simp add: lit_def)
  moreover have "\<Union>(set ` set (map group_name is)) \<subseteq> {22269, 20869, 73, 80, 45} \<union> {48..57}"
    using group_name_chars by auto
  ultimately show ?thesis by blast
qed

lemma group_name_inj: "0 \<le> i \<Longrightarrow> 0 \<le> j \<Longrightarrow> group_name i = group_name j \<Longrightarrow> i = j"
  by (simp add: group_name_def str_int_inj)

lemma distinct_names: "distinct (map group_name [1..n])"
  by (auto simp: distinct_map inj_on_def intro: group_name_inj)

lemma split_names:
  assumes "0 < n"
  shows "split 44 (join (lit '','') (map group_name [1..n])) = map group_name [1..n]"
proof -
  have ne: "map group_name [1..n] \<noteq> []" using assms by (simp add: upto.simps)
  have "\<forall>x\<in>set (map group_name [1..n]). 44 \<notin> set x"
  proof
    fix x assume "x \<in> set (map group_name [1..n])"
    then obtain i where "x = group_name i" by auto
    then show "44 \<notin> set x" using group_name_chars[of i] by auto
  qed
  then have "split 44 (join [44] (map group_name [1..n])) = map group_name [1..n]"
    using ne by (rule split_join[rotated])
  then show ?thesis by (simp add: lit_def)
qed

lemma seq_numbers: "map (\<lambda>k. 1 + int k) [0..<n] = [1..int n]"
proof (induction n)
  case 0
  show ?case by simp
next
  case (Suc n)
  have "[1..int (Suc n)] = [1..int n] @ [int n + 1]"
    using upto_rec2[of 1 "int n + 1"] by (simp add: add.commute)
  with Suc show ?case by simp
qed

lemma group_file_names:
  assumes "\<forall>c\<in>set cidrs. spec_cidr c"
  shows "map (field ''group_name'') (records (file_text (gen_final cidrs)))
     = map (\<lambda>i. Some (group_name i)) [1..int (ngroups cidrs)]"
proof -
  have "map (field ''group_name'') (map (group_record cidrs) [0..<ngroups cidrs])
      = map (\<lambda>k. Some (group_name (1 + int k))) [0..<ngroups cidrs]"
    using group_record_fields(2)[OF assms] by simp
  also have "\<dots> = map (\<lambda>i. Some (group_name i)) (map (\<lambda>k. 1 + int k) [0..<ngroups cidrs])"
    by (simp add: comp_def)
  finally show ?thesis by (simp only: group_file_records[OF assms] seq_numbers)
qed

lemma filenames_differ: "group_filename d \<noteq> acl_filename d'"
  by (simp add: group_filename_def acl_filename_def lit_def)

lemma acl_line_no_newline: "10 \<notin> set (acl_rule (join (lit '','') (map group_name is)))"
proof -
  have "10 \<notin> set (join (lit '','') (map group_name is))" using names_chars[of "is"] by auto
  then show ?thesis by (rule acl_rule_no_newline)
qed

lemma acl_line_no_space: "32 \<notin> set (join (lit '','') (map group_name is))"
  using names_chars[of "is"] by auto

lemma records_single: "10 \<notin> set line \<Longrightarrow> records (line @ [10]) = [line]"
  using records_lines[of "[line]"] by simp

section \<open>The calendar and the date token\<close>

lemma div_step:
  fixes y k :: int
  assumes "0 < k"
  shows "y div k = (y - 1) div k + (if y mod k = 0 then 1 else 0)"
proof (cases "y mod k = 0")
  case True
  have "y = k * (y div k) + y mod k" by simp
  with True have "y - 1 = k * (y div k - 1) + (k - 1)" by (simp add: algebra_simps)
  moreover have "0 \<le> k - 1" "k - 1 < k" using assms by simp_all
  ultimately have "(y - 1) div k = y div k - 1" by (rule int_div_pos_eq)
  then show ?thesis using True by simp
next
  case False
  have m: "0 \<le> y mod k" "y mod k < k" using assms by simp_all
  have "y = k * (y div k) + y mod k" by simp
  then have "y - 1 = k * (y div k) + (y mod k - 1)" by simp
  moreover have "0 \<le> y mod k - 1" "y mod k - 1 < k" using m False by simp_all
  ultimately have "(y - 1) div k = y div k" by (rule int_div_pos_eq)
  then show ?thesis using False by simp
qed

lemma leap_cases:
  fixes y :: int
  shows "y mod 400 = 0 \<Longrightarrow> y mod 100 = 0" and "y mod 100 = 0 \<Longrightarrow> y mod 4 = 0"
proof -
  assume "y mod 400 = 0"
  then have "400 dvd y" by (simp add: mod_eq_0_iff_dvd)
  moreover have "(100::int) dvd 400" by simp
  ultimately have "100 dvd y" by (rule dvd_trans[rotated])
  then show "y mod 100 = 0" by (simp add: mod_eq_0_iff_dvd)
next
  assume "y mod 100 = 0"
  then have "100 dvd y" by (simp add: mod_eq_0_iff_dvd)
  moreover have "(4::int) dvd 100" by simp
  ultimately have "4 dvd y" by (rule dvd_trans[rotated])
  then show "y mod 4 = 0" by (simp add: mod_eq_0_iff_dvd)
qed

lemma days_before_next_year:
  "days_before_year (y + 1) = days_before_year y + (if is_leap y then 366 else 365)"
proof -
  define a where "a = (y - 1) div 4"
  define b where "b = (y - 1) div 100"
  define c where "c = (y - 1) div 400"
  have d4: "y div 4 = a + (if y mod 4 = 0 then 1 else 0)"
    unfolding a_def by (rule div_step) simp
  have d100: "y div 100 = b + (if y mod 100 = 0 then 1 else 0)"
    unfolding b_def by (rule div_step) simp
  have d400: "y div 400 = c + (if y mod 400 = 0 then 1 else 0)"
    unfolding c_def by (rule div_step) simp
  have l: "days_before_year (y + 1) = y * 365 + y div 4 - y div 100 + y div 400"
    by (simp add: days_before_year_def)
  have r: "days_before_year y = (y - 1) * 365 + a - b + c"
    by (simp add: days_before_year_def a_def b_def c_def)
  show ?thesis
  proof (cases "y mod 4 = 0")
    case False
    then have "y mod 100 \<noteq> 0" "y mod 400 \<noteq> 0" using leap_cases[of y] by auto
    with False show ?thesis
      unfolding l r d4 d100 d400 by (simp add: is_leap_def algebra_simps)
  next
    case m4: True
    show ?thesis
    proof (cases "y mod 100 = 0")
      case False
      then have "y mod 400 \<noteq> 0" using leap_cases(1)[of y] by auto
      with False m4 show ?thesis
        unfolding l r d4 d100 d400 by (simp add: is_leap_def algebra_simps)
    next
      case m100: True
      show ?thesis
      proof (cases "y mod 400 = 0")
        case True
        with m4 m100 show ?thesis
          unfolding l r d4 d100 d400 by (simp add: is_leap_def algebra_simps)
      next
        case False
        with m4 m100 show ?thesis
          unfolding l r d4 d100 d400 by (simp add: is_leap_def algebra_simps)
      qed
    qed
  qed
qed

lemma days_before_december:
  "days_before_month y 12 + 31 = (if is_leap y then 366 else 365)"
proof -
  have "[1..(11::int)] = [1, 2, 3, 4, 5, 6, 7, 8, 9, 10, 11]"
    by (simp add: upto.simps)
  then show ?thesis by (simp add: days_before_month_def days_in_month_def)
qed

lemma days_before_january: "days_before_month y 1 = 0"
  by (simp add: days_before_month_def)

lemma days_before_next_month:
  assumes "1 \<le> m"
  shows "days_before_month y (m + 1) = days_before_month y m + days_in_month y m"
proof -
  have "[1..m] = [1..m - 1] @ [m]" using assms upto_rec2[of 1 m] by simp
  then show ?thesis by (simp add: days_before_month_def)
qed

lemma days_in_month_ge: "28 \<le> days_in_month y m"
  by (simp add: days_in_month_def)

lemma december: "days_in_month y 12 = 31"
  by (simp add: days_in_month_def)

lemma add_one_day_ok:
  assumes v: "valid_datetime dt"
    and last: "\<not> (year dt = 9999 \<and> month dt = 12 \<and> day dt = 31)"
  shows "\<exists>t. add_one_day dt = Inr t \<and> valid_datetime t \<and> ordinal t = ordinal dt + 1"
proof -
  let ?dim = "days_in_month (year dt) (month dt)"
  from v have r: "1 \<le> year dt" "year dt \<le> 9999" "1 \<le> month dt" "month dt \<le> 12"
    "1 \<le> day dt" "day dt \<le> ?dim"
    and tm: "0 \<le> hour dt" "hour dt < 24" "0 \<le> minute dt" "minute dt < 60"
      "0 \<le> second dt" "second dt < 60" "0 \<le> microsecond dt" "microsecond dt < 1000000"
    by (simp_all add: valid_datetime_def)
  show ?thesis
  proof (cases "day dt + 1 \<le> ?dim")
    case True
    let ?t = "dt\<lparr>day := day dt + 1\<rparr>"
    have "add_one_day dt = Inr ?t" using True by (simp add: add_one_day_def)
    moreover have "valid_datetime ?t" using True r tm by (simp add: valid_datetime_def)
    moreover have "ordinal ?t = ordinal dt + 1" by (simp add: ordinal_def)
    ultimately show ?thesis by blast
  next
    case False
    with r have d: "day dt = ?dim" by simp
    show ?thesis
    proof (cases "month dt + 1 \<le> 12")
      case True
      let ?t = "dt\<lparr>month := month dt + 1, day := 1\<rparr>"
      have "add_one_day dt = Inr ?t" using True False by (simp add: add_one_day_def)
      moreover have "valid_datetime ?t"
        using True r tm days_in_month_ge[of "year dt" "month dt + 1"]
        by (simp add: valid_datetime_def)
      moreover have "ordinal ?t = ordinal dt + 1"
        using days_before_next_month[OF r(3), of "year dt"] d by (simp add: ordinal_def)
      ultimately show ?thesis by blast
    next
      case m: False
      with r have m12: "month dt = 12" by simp
      with d have d31: "day dt = 31" by (simp add: december)
      with last m12 r have y: "year dt + 1 \<le> 9999" by simp
      let ?t = "dt\<lparr>year := year dt + 1, month := 1, day := 1\<rparr>"
      have "add_one_day dt = Inr ?t" using y m False by (simp add: add_one_day_def)
      moreover have "valid_datetime ?t"
        using y r tm days_in_month_ge[of "year dt + 1" 1] by (simp add: valid_datetime_def)
      moreover have "ordinal ?t = ordinal dt + 1"
        using days_before_next_year[of "year dt"] days_before_december[of "year dt"]
        by (simp add: ordinal_def m12 d31 days_before_january)
      ultimately show ?thesis by blast
    qed
  qed
qed

lemma length_str_nat: "0 < k \<Longrightarrow> n < 10 ^ k \<Longrightarrow> length (str_nat n) \<le> k"
proof (induction k arbitrary: n)
  case 0
  then show ?case by simp
next
  case (Suc k)
  show ?case
  proof (cases "n < 10")
    case True
    then show ?thesis by (subst str_nat.simps) simp
  next
    case False
    then have k: "0 < k" using Suc.prems(2) by (cases k) simp_all
    have "n div 10 < 10 ^ k" using Suc.prems(2) by (simp add: less_mult_imp_div_less mult.commute)
    then have "length (str_nat (n div 10)) \<le> k" using k by (rule Suc.IH[rotated])
    with False show ?thesis by (subst str_nat.simps) simp
  qed
qed

lemma decimal_append: "decimal (xs @ ys) = foldl (\<lambda>acc c. 10 * acc + (c - 48)) (decimal xs) ys"
  by (simp add: decimal_def)

lemma decimal_zeros: "decimal (replicate n 48) = 0"
  by (induction n) (simp_all add: decimal_def)

lemma decimal_zfill: "decimal (zfill w s) = decimal s"
  by (simp add: zfill_def decimal_append decimal_zeros) (simp add: decimal_def)

lemma length_zfill: "length s \<le> w \<Longrightarrow> length (zfill w s) = w"
  by (simp add: zfill_def)

lemma zfill_field:
  assumes "0 \<le> i" and "nat i < 10 ^ w" and "0 < w"
  shows "length (zfill w (str_int i)) = w" and "int (decimal (zfill w (str_int i))) = i"
proof -
  have s: "str_int i = str_nat (nat i)" using assms(1) by (simp add: str_int_def)
  have "length (str_nat (nat i)) \<le> w" using assms(3,2) by (rule length_str_nat)
  then show "length (zfill w (str_int i)) = w" by (simp add: s length_zfill)
  show "int (decimal (zfill w (str_int i))) = i"
    using assms(1) by (simp add: s decimal_zfill decimal_str_nat)
qed

lemma length_str_nat_ge: "10 ^ k \<le> n \<Longrightarrow> k < length (str_nat n)"
proof (induction k arbitrary: n)
  case 0
  show ?case by (subst str_nat.simps) simp
next
  case (Suc k)
  have a: "(10::nat) \<le> 10 * 10 ^ k" by simp
  have b: "10 * 10 ^ k \<le> n" using Suc.prems by simp
  from a b have "10 \<le> n" by (rule le_trans)
  then have big: "\<not> n < 10" by simp
  have "10 ^ k \<le> n div 10" using Suc.prems by (simp add: less_eq_div_iff_mult_less_eq mult.commute)
  then have "k < length (str_nat (n div 10))" by (rule Suc.IH)
  with big show ?case by (subst str_nat.simps) simp
qed

lemma year_field:
  assumes "1000 \<le> i" and "i \<le> 9999"
  shows "length (str_int i) = 4" and "int (decimal (str_int i)) = i"
proof -
  have s: "str_int i = str_nat (nat i)" using assms(1) by (simp add: str_int_def)
  have "nat i < 10 ^ 4" using assms by simp
  then have up: "length (str_nat (nat i)) \<le> 4" by (rule length_str_nat[rotated]) simp
  have "10 ^ 3 \<le> nat i" using assms by simp
  then have "3 < length (str_nat (nat i))" by (rule length_str_nat_ge)
  with up show "length (str_int i) = 4" by (simp add: s)
  show "int (decimal (str_int i)) = i" using assms(1) by (simp add: s decimal_str_nat)
qed

lemma add_one_day_year: "add_one_day dt = Inr t \<Longrightarrow> year dt \<le> year t"
  by (auto simp: add_one_day_def split: if_splits)

lemma strftime_Ymd_token:
  assumes "valid_datetime dt" and "1000 \<le> year dt"
  shows "length (strftime_Ymd dt) = 8" and "token_date (strftime_Ymd dt) = (year dt, month dt, day dt)"
proof -
  from assms(1) have r: "1 \<le> year dt" "year dt \<le> 9999" "1 \<le> month dt" "month dt \<le> 12"
    "1 \<le> day dt" "day dt \<le> days_in_month (year dt) (month dt)"
    by (simp_all add: valid_datetime_def)
  have "days_in_month (year dt) (month dt) \<le> 31" by (simp add: days_in_month_def)
  with r have d: "day dt \<le> 31" by simp
  have y: "length (str_int (year dt)) = 4" "int (decimal (str_int (year dt))) = year dt"
    using r assms(2) by (simp_all add: year_field)
  have m: "length (zfill 2 (str_int (month dt))) = 2" "int (decimal (zfill 2 (str_int (month dt)))) = month dt"
    using r by (simp_all add: zfill_field)
  have dd: "length (zfill 2 (str_int (day dt))) = 2" "int (decimal (zfill 2 (str_int (day dt)))) = day dt"
    using r d by (simp_all add: zfill_field)
  show "length (strftime_Ymd dt) = 8" by (simp add: strftime_Ymd_def y m dd)
  show "token_date (strftime_Ymd dt) = (year dt, month dt, day dt)"
    by (simp add: token_date_def strftime_Ymd_def y m dd)
qed

section \<open>Concrete inputs\<close>

lemma str_int_small: "str_int 60 = lit ''60''" "str_int 61 = lit ''61''" "str_int 62 = lit ''62''"
  "str_int 1 = lit ''1''" "str_int 2 = lit ''2''" "str_int 3 = lit ''3''"
  by (simp_all add: str_int_def str_nat.simps lit_def)

lemma example_cidr_valid: "spec_cidr (lit ''1.2.3.4/24'')" "spec_cidr (lit ''10.0.0.0/8'')"
  by (simp_all add: spec_cidr_def spec_octet_def spec_mask_def is_digit_def decimal_def lit_def)

lemma records_nth:
  assumes "\<forall>c\<in>set cidrs. spec_cidr c" and "k < ngroups cidrs"
  shows "records (file_text (gen_final cidrs)) ! k = group_record cidrs k"
  using assms by (simp add: group_file_records)

lemma many_cidrs_length: "length many_cidrs = 2500"
  by (simp add: many_cidrs_def)

lemma many_cidrs_valid: "\<forall>c\<in>set many_cidrs. spec_cidr c"
  by (simp add: many_cidrs_def example_cidr_valid)

lemma example_lines: "splitlines example_text =
   [lit ''1.2.3.4/24'', lit ''999.1.1.1/24'', lit ''10.0.0.0/33'', lit ''# comment'', []]"
  by (simp add: example_text_def lit_def is_linebreak_def)

lemma example_strip:
  "strip (lit ''1.2.3.4/24'') = lit ''1.2.3.4/24''"
  "strip (lit ''999.1.1.1/24'') = lit ''999.1.1.1/24''"
  "strip (lit ''10.0.0.0/33'') = lit ''10.0.0.0/33''"
  "strip (lit ''# comment'') = lit ''# comment''"
  "strip [] = []"
  by (simp_all add: strip_def lit_def isspace_def)

lemma example_match:
  "cidr_pattern_match (lit ''1.2.3.4/24'')"
  "\<not> cidr_pattern_match (lit ''999.1.1.1/24'')"
  "\<not> cidr_pattern_match (lit ''10.0.0.0/33'')"
  by (simp_all add: cidr_pattern_match_def match_anchored_def cidr_re_def octet_re_def mask_re_def
      lit_def numeral_3_eq_3 at_dollar_def)

lemma example_skip:
  "\<not> skip_line (lit ''1.2.3.4/24'')" "\<not> skip_line (lit ''999.1.1.1/24'')"
  "\<not> skip_line (lit ''10.0.0.0/33'')" "skip_line (lit ''# comment'')" "skip_line []"
  by (simp_all add: skip_line_def starts_with_def lit_def)

lemma example_scan:
  "scan example_text = \<lparr>scan_cidrs = [lit ''1.2.3.4/24''],
      scan_skipped = [(2, lit ''999.1.1.1/24''), (3, lit ''10.0.0.0/33'')]\<rparr>"
  unfolding scan_def example_lines
  by (simp add: scan_step_def Let_def example_strip example_skip example_match)

lemma short_year_token:
  "get_data_date \<lparr>year = 999, month = 12, day = 30, hour = 8, minute = 0, second = 0,
      microsecond = 0\<rparr> = Inr (lit ''9991231'')"
  by (simp add: get_data_date_def add_one_day_def days_in_month_def strftime_Ymd_def zfill_def
      str_int_def str_nat.simps lit_def)

lemma fullmatch_lang: "fullmatch r s \<longleftrightarrow> s \<in> lang r"
  by (simp add: fullmatch_def list_ex_iff lang_full)

section \<open>The claims\<close>

text \<open>C1. For every sequence of validated CIDRs, the group file holds one record per group;
  every group but the last has exactly 1000 members, the last has between 1 and 1000, no
  record has an empty \<open>addr_pool\<close>, and an empty input gives no record at all. 2500
  CIDRs give three groups of 1000, 1000 and 500 members with the ids 60, 61, 62 and the
  names prefix-1, prefix-2, prefix-3; exactly 1000 CIDRs give one group of 1000.\<close>

theorem partition_shape:
  assumes valid: "\<forall>c\<in>set cidrs. spec_cidr c"
    and run: "generate_ip_groups cidrs data_date fs = (fs', path, total_groups)"
  shows "\<exists>text. fs' path = Some text
      \<and> total_groups = int (length (records text))
      \<and> (\<forall>k<length (records text). \<exists>pool. members (records text ! k) = Some pool
            \<and> 1 \<le> length pool \<and> length pool \<le> 1000
            \<and> (Suc k < length (records text) \<longrightarrow> length pool = 1000)
            \<and> field ''addr_pool'' (records text ! k) \<noteq> Some [])
      \<and> (cidrs = [] \<longrightarrow> records text = [] \<and> total_groups = 0)
      \<and> (length cidrs = 2500 \<longrightarrow>
            map (\<lambda>r. map_option length (members r)) (records text) = [Some 1000, Some 1000, Some 500]
          \<and> map (field ''id'') (records text) = [Some (lit ''60''), Some (lit ''61''), Some (lit ''62'')]
          \<and> map (field ''group_name'') (records text) =
              [Some (name_prefix @ lit ''1''), Some (name_prefix @ lit ''2''), Some (name_prefix @ lit ''3'')])
      \<and> (length cidrs = 1000 \<longrightarrow>
            map (\<lambda>r. map_option length (members r)) (records text) = [Some 1000] \<and> total_groups = 1)"
proof -
  define body where "body = file_text (gen_final cidrs)"
  define n where "n = ngroups cidrs"
  have wr: "fs' path = Some body" and total: "total_groups = int n"
    using generate_ip_groups_result[OF run] by (simp_all add: body_def n_def)
  have recs: "records body = map (group_record cidrs) [0..<n]"
    unfolding body_def n_def by (rule group_file_records[OF valid])
  have len: "length (records body) = n" by (simp add: recs)
  have nth: "records body ! k = group_record cidrs k" if "k < n" for k
    using that by (simp add: recs)
  have mem: "members (group_record cidrs k) = Some (chunk cidrs k)" if "k < n" for k
    using that group_record_fields(4)[OF valid] by (simp add: n_def)
  have shape: "\<forall>k<length (records body). \<exists>pool. members (records body ! k) = Some pool
            \<and> 1 \<le> length pool \<and> length pool \<le> 1000
            \<and> (Suc k < length (records body) \<longrightarrow> length pool = 1000)
            \<and> field ''addr_pool'' (records body ! k) \<noteq> Some []"
  proof (intro allI impI)
    fix k assume "k < length (records body)"
    then have k: "k < n" by (simp add: len)
    then have lt: "1000 * k < length cidrs" by (simp add: n_def ngroups_less)
    have l1: "1 \<le> length (chunk cidrs k)" "length (chunk cidrs k) \<le> 1000"
      using lt by (simp_all add: chunk_length)
    have l2: "Suc k < length (records body) \<longrightarrow> length (chunk cidrs k) = 1000"
    proof
      assume "Suc k < length (records body)"
      then have "1000 * Suc k < length cidrs" by (simp add: len n_def ngroups_less)
      then show "length (chunk cidrs k) = 1000" by (simp add: chunk_length)
    qed
    have "field ''addr_pool'' (group_record cidrs k) \<noteq> Some []"
      using group_record_fields(3,5)[OF valid, of k] k by (simp add: n_def)
    then show "\<exists>pool. members (records body ! k) = Some pool
            \<and> 1 \<le> length pool \<and> length pool \<le> 1000
            \<and> (Suc k < length (records body) \<longrightarrow> length pool = 1000)
            \<and> field ''addr_pool'' (records body ! k) \<noteq> Some []"
      using l1 l2 mem[OF k] nth[OF k] by simp
  qed
  have empty: "cidrs = [] \<longrightarrow> records body = [] \<and> total_groups = 0"
    by (simp add: recs total n_def ngroups_def)
  have c2500: "length cidrs = 2500 \<longrightarrow>
            map (\<lambda>r. map_option length (members r)) (records body) = [Some 1000, Some 1000, Some 500]
          \<and> map (field ''id'') (records body) = [Some (lit ''60''), Some (lit ''61''), Some (lit ''62'')]
          \<and> map (field ''group_name'') (records body) =
              [Some (name_prefix @ lit ''1''), Some (name_prefix @ lit ''2''), Some (name_prefix @ lit ''3'')]"
  proof
    assume L: "length cidrs = 2500"
    then have n3: "n = 3" by (simp add: n_def ngroups_def)
    have upt3: "[0..<3] = [0, 1, Suc 1]" by (simp add: upt_rec)
    have r3: "records body = [group_record cidrs 0, group_record cidrs 1, group_record cidrs (Suc 1)]"
      by (simp add: recs n3 upt3)
    have k: "(0::nat) < n" "(1::nat) < n" "Suc 1 < n" by (simp_all add: n3)
    have sizes: "length (chunk cidrs 0) = 1000" "length (chunk cidrs 1) = 1000"
      "length (chunk cidrs (Suc 1)) = 500"
      using L by (simp_all add: chunk_length)
    have ids: "field ''id'' (group_record cidrs 0) = Some (lit ''60'')"
      "field ''id'' (group_record cidrs 1) = Some (lit ''61'')"
      "field ''id'' (group_record cidrs (Suc 1)) = Some (lit ''62'')"
      using group_record_fields(1)[OF valid, of 0] group_record_fields(1)[OF valid, of 1]
        group_record_fields(1)[OF valid, of "Suc 1"] k
      by (simp_all add: n_def str_int_small)
    have names: "field ''group_name'' (group_record cidrs 0) = Some (name_prefix @ lit ''1'')"
      "field ''group_name'' (group_record cidrs 1) = Some (name_prefix @ lit ''2'')"
      "field ''group_name'' (group_record cidrs (Suc 1)) = Some (name_prefix @ lit ''3'')"
      using group_record_fields(2)[OF valid, of 0] group_record_fields(2)[OF valid, of 1]
        group_record_fields(2)[OF valid, of "Suc 1"] k
      by (simp_all add: n_def group_name_def str_int_small)
    show "map (\<lambda>r. map_option length (members r)) (records body) = [Some 1000, Some 1000, Some 500]
          \<and> map (field ''id'') (records body) = [Some (lit ''60''), Some (lit ''61''), Some (lit ''62'')]
          \<and> map (field ''group_name'') (records body) =
              [Some (name_prefix @ lit ''1''), Some (name_prefix @ lit ''2''), Some (name_prefix @ lit ''3'')]"
      unfolding r3 using mem[OF k(1)] mem[OF k(2)] mem[OF k(3)] sizes ids names by simp
  qed
  have c1000: "length cidrs = 1000 \<longrightarrow>
            map (\<lambda>r. map_option length (members r)) (records body) = [Some 1000] \<and> total_groups = 1"
  proof
    assume L: "length cidrs = 1000"
    then have n1: "n = 1" by (simp add: n_def ngroups_def)
    have r1: "records body = [group_record cidrs 0]" by (simp add: recs n1)
    have "length (chunk cidrs 0) = 1000" using L by (simp add: chunk_length)
    then show "map (\<lambda>r. map_option length (members r)) (records body) = [Some 1000] \<and> total_groups = 1"
      unfolding r1 using mem[of 0] by (simp add: n1 total)
  qed
  show ?thesis
    using wr total len shape empty c2500 c1000 by (intro exI[of _ body]) simp
qed

theorem partition_shape_witness:
  "\<exists>fs' path total_groups body.
     generate_ip_groups many_cidrs (lit ''20250102'') Map.empty = (fs', path, total_groups)
     \<and> fs' path = Some body \<and> total_groups = 3
     \<and> map (\<lambda>r. map_option length (members r)) (records body) = [Some 1000, Some 1000, Some 500]
     \<and> map (field ''id'') (records body) = [Some (lit ''60''), Some (lit ''61''), Some (lit ''62'')]"
proof -
  obtain fs' path total_groups where
    run: "generate_ip_groups many_cidrs (lit ''20250102'') Map.empty = (fs', path, total_groups)"
    by (rule prod_cases3)
  from partition_shape[OF many_cidrs_valid run] obtain body where
    b1: "fs' path = Some body" and b2: "total_groups = int (length (records body))" and
    b3: "length many_cidrs = 2500 \<longrightarrow>
            map (\<lambda>r. map_option length (members r)) (records body) = [Some 1000, Some 1000, Some 500]
          \<and> map (field ''id'') (records body) = [Some (lit ''60''), Some (lit ''61''), Some (lit ''62'')]
          \<and> map (field ''group_name'') (records body) =
              [Some (name_prefix @ lit ''1''), Some (name_prefix @ lit ''2''), Some (name_prefix @ lit ''3'')]"
    by (elim exE conjE)
  from b3 have sizes:
    "map (\<lambda>r. map_option length (members r)) (records body) = [Some 1000, Some 1000, Some 500]"
    and ids: "map (field ''id'') (records body) = [Some (lit ''60''), Some (lit ''61''), Some (lit ''62'')]"
    by (simp_all add: many_cidrs_length)
  have "length (records body) = 3"
    using length_map[of "field ''id''" "records body"] by (simp only: ids) simp
  with b2 have t3: "total_groups = 3" by simp
  show ?thesis
    by (rule exI[of _ fs'], rule exI[of _ path], rule exI[of _ total_groups], rule exI[of _ body])
      (simp only: run b1 sizes ids t3 simp_thms)
qed

text \<open>C2. For every sequence of validated CIDRs, the \<open>addr_pool\<close> fields of the records of
  the group file, each split on the comma and taken in the order of the records, give back
  the input sequence: nothing is split, reordered, deduplicated or dropped. The same holds
  for the fields joined by commas into one string and split on the comma.\<close>

theorem partition_round_trip:
  assumes valid: "\<forall>c\<in>set cidrs. spec_cidr c"
    and run: "generate_ip_groups cidrs data_date fs = (fs', path, total_groups)"
  shows "\<exists>body pools. fs' path = Some body
      \<and> map (field ''addr_pool'') (records body) = map (\<lambda>p. Some (join (lit '','') p)) pools
      \<and> map members (records body) = map Some pools
      \<and> concat pools = cidrs
      \<and> (cidrs \<noteq> [] \<longrightarrow> split 44 (join (lit '','') (map (join (lit '','')) pools)) = cidrs)"
proof -
  let ?ks = "[0..<ngroups cidrs]"
  let ?pools = "map (chunk cidrs) ?ks"
  have wr: "fs' path = Some (file_text (gen_final cidrs))"
    using generate_ip_groups_result[OF run] by simp
  have recs: "records (file_text (gen_final cidrs)) = map (group_record cidrs) ?ks"
    by (rule group_file_records[OF valid])
  have fields: "map (field ''addr_pool'') (records (file_text (gen_final cidrs)))
      = map (\<lambda>p. Some (join (lit '','') p)) ?pools"
    unfolding recs using group_record_fields(3)[OF valid] by simp
  have mems: "map members (records (file_text (gen_final cidrs))) = map Some ?pools"
    unfolding recs using group_record_fields(4)[OF valid] by simp
  have cat: "concat ?pools = cidrs" by (rule concat_chunks)
  have joined: "cidrs \<noteq> [] \<longrightarrow> split 44 (join (lit '','') (map (join (lit '','')) ?pools)) = cidrs"
  proof
    assume ne: "cidrs \<noteq> []"
    have "\<forall>p\<in>set ?pools. p \<noteq> []"
    proof
      fix p assume "p \<in> set ?pools"
      then obtain k where k: "k < ngroups cidrs" "p = chunk cidrs k" by auto
      then have "1000 * k < length cidrs" by (simp add: ngroups_less)
      then have "0 < length (chunk cidrs k)" by (simp add: chunk_length)
      then show "p \<noteq> []" using k(2) by auto
    qed
    then have "join [44] (map (join [44]) ?pools) = join [44] cidrs"
      using join_concat[of ?pools "[44]"] by (simp only: cat)
    moreover have "\<forall>c\<in>set cidrs. 44 \<notin> set c"
    proof
      fix c assume "c \<in> set cidrs"
      with valid have "spec_cidr c" by blast
      then show "44 \<notin> set c" by (rule spec_cidr_no_sep(3))
    qed
    then have "split 44 (join [44] cidrs) = cidrs" using ne by (rule split_join[rotated])
    ultimately show "split 44 (join (lit '','') (map (join (lit '','')) ?pools)) = cidrs"
      by (simp add: lit_def)
  qed
  show ?thesis
    by (rule exI[of _ "file_text (gen_final cidrs)"], rule exI[of _ ?pools], intro conjI)
      (fact wr fields mems cat joined)+
qed

theorem partition_round_trip_witness:
  "\<exists>fs' path total_groups body pools.
     generate_ip_groups [lit ''1.2.3.4/24'', lit ''10.0.0.0/8'', lit ''1.2.3.4/24''] (lit ''20250102'')
       Map.empty = (fs', path, total_groups)
     \<and> fs' path = Some body
     \<and> map members (records body) = map Some pools
     \<and> concat pools = [lit ''1.2.3.4/24'', lit ''10.0.0.0/8'', lit ''1.2.3.4/24'']"
proof -
  let ?cidrs = "[lit ''1.2.3.4/24'', lit ''10.0.0.0/8'', lit ''1.2.3.4/24'']"
  have v: "\<forall>c\<in>set ?cidrs. spec_cidr c" by (simp add: example_cidr_valid)
  obtain fs' path total_groups where
    run: "generate_ip_groups ?cidrs (lit ''20250102'') Map.empty = (fs', path, total_groups)"
    by (rule prod_cases3)
  from partition_round_trip[OF v run] obtain body pools where
    b: "fs' path = Some body" "map members (records body) = map Some pools" "concat pools = ?cidrs"
    by (elim exE conjE)
  show ?thesis
    by (rule exI[of _ fs'], rule exI[of _ path], rule exI[of _ total_groups], rule exI[of _ body],
        rule exI[of _ pools]) (simp only: run b simp_thms)
qed

text \<open>C3. The CIDRs that the extractor returns are exactly the trimmed lines, neither
  blank nor comments, that are of the form \<open>A.B.C.D/M\<close> of the grammar, verbatim and in the
  order of the input; the other such lines are reported as skipped and the scan goes on.
  The octets of the grammar, one to three digits of value at most 255, are what the
  octet alternation of the source matches; the masks, \<open>[0-9]\<close>, \<open>[12][0-9]\<close> or \<open>3[0-2]\<close>,
  are what its mask alternation matches, and their value is at most 32.\<close>

theorem validation_grammar:
  "scan_cidrs (fetch_domestic_cidrs (Reply status text)) =
     (if http_error status then []
      else filter spec_cidr (filter (\<lambda>l. \<not> skip_line l) (map strip (splitlines text))))
   \<and> scan_skipped (fetch_domestic_cidrs (Reply status text)) =
     (if http_error status then []
      else map (\<lambda>nl. (fst nl, strip (snd nl)))
             (filter (\<lambda>nl. \<not> skip_line (strip (snd nl)) \<and> \<not> spec_cidr (strip (snd nl)))
                (enumerate 1 (splitlines text))))
   \<and> (\<forall>l\<in>set (scan_cidrs (fetch_domestic_cidrs r)). spec_cidr l)
   \<and> (\<forall>l. spec_cidr l \<longleftrightarrow>
         (\<exists>a b c d m. l = a @ lit ''.'' @ b @ lit ''.'' @ c @ lit ''.'' @ d @ lit ''/'' @ m
            \<and> spec_octet a \<and> spec_octet b \<and> spec_octet c \<and> spec_octet d \<and> spec_mask m))
   \<and> (\<forall>x. spec_octet x \<longleftrightarrow> fullmatch octet_re x)
   \<and> (\<forall>m. spec_mask m \<longleftrightarrow> fullmatch mask_re m)
   \<and> (\<forall>m. spec_mask m \<longrightarrow> list_all is_digit m \<and> decimal m \<le> 32)"
proof -
  have a: "scan_cidrs (fetch_domestic_cidrs (Reply status text)) =
     (if http_error status then []
      else filter spec_cidr (filter (\<lambda>l. \<not> skip_line l) (map strip (splitlines text))))"
    by (simp add: fetch_domestic_cidrs_def scan_cidrs_eq)
  have a': "scan_skipped (fetch_domestic_cidrs (Reply status text)) =
     (if http_error status then []
      else map (\<lambda>nl. (fst nl, strip (snd nl)))
             (filter (\<lambda>nl. \<not> skip_line (strip (snd nl)) \<and> \<not> spec_cidr (strip (snd nl)))
                (enumerate 1 (splitlines text))))"
    by (simp add: fetch_domestic_cidrs_def scan_skipped_eq)
  have b: "\<forall>l\<in>set (scan_cidrs (fetch_domestic_cidrs r)). spec_cidr l"
    by (cases r) (simp_all add: fetch_domestic_cidrs_def scan_cidrs_eq)
  have c: "\<forall>l. spec_cidr l \<longleftrightarrow>
         (\<exists>a b c d m. l = a @ lit ''.'' @ b @ lit ''.'' @ c @ lit ''.'' @ d @ lit ''/'' @ m
            \<and> spec_octet a \<and> spec_octet b \<and> spec_octet c \<and> spec_octet d \<and> spec_mask m)"
    by (simp add: spec_cidr_iff lit_def)
  have d: "\<forall>x. spec_octet x \<longleftrightarrow> fullmatch octet_re x"
    by (simp add: fullmatch_lang octet_lang)
  have e: "\<forall>m. spec_mask m \<longleftrightarrow> fullmatch mask_re m"
    by (simp add: fullmatch_lang mask_lang)
  have f: "\<forall>m. spec_mask m \<longrightarrow> list_all is_digit m \<and> decimal m \<le> 32"
  proof (intro allI impI conjI)
    fix m assume m: "spec_mask m"
    from spec_mask_digits[OF m] show "list_all is_digit m"
      by (auto simp: list_all_iff is_digit_def)
    from m show "decimal m \<le> 32" by (rule spec_mask_range)
  qed
  show ?thesis
    by (intro conjI) (fact a a' b c d e f)+
qed

theorem validation_grammar_witness:
  "scan_cidrs (fetch_domestic_cidrs (Reply 200 example_text)) =
     filter spec_cidr (filter (\<lambda>l. \<not> skip_line l) (map strip (splitlines example_text)))
   \<and> spec_cidr (lit ''1.2.3.4/24'')
   \<and> fullmatch octet_re (lit ''255'') \<and> \<not> fullmatch octet_re (lit ''256'')
   \<and> fullmatch mask_re (lit ''32'') \<and> \<not> fullmatch mask_re (lit ''33'')
   \<and> decimal (lit ''32'') \<le> 32"
proof -
  note g = validation_grammar[of 200 example_text "Reply 200 example_text"]
  have "lit ''1.2.3.4/24'' \<in> set (scan_cidrs (fetch_domestic_cidrs (Reply 200 example_text)))"
    by (simp add: fetch_domestic_cidrs_def http_error_def example_scan)
  with g have "spec_cidr (lit ''1.2.3.4/24'')" by blast
  moreover have "spec_octet (lit ''255'')" "\<not> spec_octet (lit ''256'')"
    by (simp_all add: spec_octet_def is_digit_def decimal_def lit_def)
  moreover have "spec_mask (lit ''32'')" "\<not> spec_mask (lit ''33'')"
    by (simp_all add: spec_mask_def is_digit_def lit_def)
  moreover have "\<not> http_error 200" by (simp add: http_error_def)
  ultimately show ?thesis using g by auto
qed

text \<open>C4. On the text with the lines \<open>1.2.3.4/24\<close>, \<open>999.1.1.1/24\<close>, \<open>10.0.0.0/33\<close>,
  \<open># comment\<close> and a blank line, the extractor returns exactly \<open>1.2.3.4/24\<close>; it reports
  the second and the third line as skipped.\<close>

theorem worked_extraction_example:
  "scan_cidrs (fetch_domestic_cidrs (Reply 200 example_text)) = [lit ''1.2.3.4/24'']
   \<and> scan_skipped (fetch_domestic_cidrs (Reply 200 example_text))
       = [(2, lit ''999.1.1.1/24''), (3, lit ''10.0.0.0/33'')]"
  by (simp add: fetch_domestic_cidrs_def http_error_def example_scan)

text \<open>C5. A line of the input that is blank, holds only whitespace, or begins with \<open>#\<close> once
  trimmed is not in the list that the extractor returns, and its line number is never
  reported as skipped.\<close>

theorem comments_and_blanks_excluded:
  assumes "i < length (splitlines text)"
    and "list_all isspace (splitlines text ! i) \<or> skip_line (strip (splitlines text ! i))"
  shows "strip (splitlines text ! i) \<notin> set (scan_cidrs (fetch_domestic_cidrs (Reply status text)))
       \<and> (\<forall>l. (i + 1, l) \<notin> set (scan_skipped (fetch_domestic_cidrs (Reply status text))))"
proof -
  let ?lines = "splitlines text"
  have skip: "skip_line (strip (?lines ! i))"
    using assms(2) strip_blank[of "?lines ! i"] by (auto simp: skip_line_def)
  have "strip (?lines ! i) \<notin> set (scan_cidrs (scan text))"
    using skip by (simp add: scan_cidrs_eq)
  moreover have "(i + 1, l) \<notin> set (scan_skipped (scan text))" for l
  proof
    assume "(i + 1, l) \<in> set (scan_skipped (scan text))"
    then obtain nl where nl: "nl \<in> set (enumerate 1 ?lines)" "\<not> skip_line (strip (snd nl))"
      "fst nl = i + 1"
      unfolding scan_skipped_eq by auto
    from nl(1) have "?lines ! (fst nl - 1) = snd nl"
      by (simp only: in_set_enumerate_eq)
    with nl(2,3) skip show False by simp
  qed
  ultimately show ?thesis
    by (simp add: fetch_domestic_cidrs_def)
qed

theorem comments_and_blanks_excluded_witness:
  "lit ''# comment'' \<notin> set (scan_cidrs (fetch_domestic_cidrs (Reply 200 example_text)))
   \<and> (4, lit ''# comment'') \<notin> set (scan_skipped (fetch_domestic_cidrs (Reply 200 example_text)))
   \<and> [] \<notin> set (scan_cidrs (fetch_domestic_cidrs (Reply 200 example_text)))
   \<and> (5, []) \<notin> set (scan_skipped (fetch_domestic_cidrs (Reply 200 example_text)))"
proof -
  have a: "(3::nat) < length (splitlines example_text)" "(4::nat) < length (splitlines example_text)"
    by (simp_all add: example_lines)
  have b: "list_all isspace (splitlines example_text ! 3) \<or> skip_line (strip (splitlines example_text ! 3))"
    by (simp add: example_lines example_strip example_skip)
  have c: "list_all isspace (splitlines example_text ! 4) \<or> skip_line (strip (splitlines example_text ! 4))"
    by (simp add: example_lines)
  show ?thesis
    using comments_and_blanks_excluded[OF a(1) b, of 200]
      comments_and_blanks_excluded[OF a(2) c, of 200]
    by (simp add: example_lines example_strip)
qed

text \<open>C6. For every positive group count, the ACL file is one line; its \<open>src_addr\<close> field
  is the comma-joined list of the names prefix-1 to prefix-N in this order, the names are
  pairwise distinct, and they are the names of the records of a group file with that
  many groups.\<close>

theorem acl_lists_group_names:
  assumes pos: "0 < num_groups"
    and run: "generate_acl_rules num_groups data_date fs = (fs', path)"
  shows "\<exists>line. fs' path = Some (line @ [10]) \<and> records (line @ [10]) = [line]
      \<and> field ''src_addr'' line = Some (join (lit '','') (map group_name [1..num_groups]))
      \<and> split 44 (join (lit '','') (map group_name [1..num_groups])) = map group_name [1..num_groups]
      \<and> distinct (map group_name [1..num_groups])
      \<and> (\<forall>cidrs d fs0 fs1 p.
            (\<forall>c\<in>set cidrs. spec_cidr c) \<and> generate_ip_groups cidrs d fs0 = (fs1, p, num_groups)
            \<longrightarrow> (\<exists>body. fs1 p = Some body
                  \<and> map (field ''group_name'') (records body)
                      = map (\<lambda>i. Some (group_name i)) [1..num_groups]))"
proof -
  let ?names = "map group_name [1..num_groups]"
  let ?line = "acl_rule (join (lit '','') ?names)"
  have wr: "fs' path = Some (?line @ [10])"
    using generate_acl_rules_result(2)[OF run] .
  have one: "records (?line @ [10]) = [?line]"
    using acl_line_no_newline by (rule records_single)
  have src: "field ''src_addr'' ?line = Some (join (lit '','') ?names)"
    using acl_line_no_space by (rule acl_rule_fields(1))
  have groups: "\<forall>cidrs d fs0 fs1 p.
            (\<forall>c\<in>set cidrs. spec_cidr c) \<and> generate_ip_groups cidrs d fs0 = (fs1, p, num_groups)
            \<longrightarrow> (\<exists>body. fs1 p = Some body
                  \<and> map (field ''group_name'') (records body)
                      = map (\<lambda>i. Some (group_name i)) [1..num_groups])"
  proof (intro allI impI, elim conjE)
    fix cidrs d fs0 fs1 p
    assume v: "\<forall>c\<in>set cidrs. spec_cidr c"
      and g: "generate_ip_groups cidrs d fs0 = (fs1, p, num_groups)"
    have "fs1 p = Some (file_text (gen_final cidrs))" "num_groups = int (ngroups cidrs)"
      using generate_ip_groups_result[OF g] by simp_all
    then show "\<exists>body. fs1 p = Some body
                  \<and> map (field ''group_name'') (records body)
                      = map (\<lambda>i. Some (group_name i)) [1..num_groups]"
      using group_file_names[OF v] by simp
  qed
  show ?thesis
    using wr one src split_names[OF pos] distinct_names[of num_groups] groups
    by (intro exI[of _ ?line]) (simp only: simp_thms)
qed

theorem acl_lists_group_names_witness:
  "\<exists>fs' path line.
     generate_acl_rules 3 (lit ''20250102'') Map.empty = (fs', path)
     \<and> fs' path = Some (line @ [10])
     \<and> field ''src_addr'' line
         = Some (join (lit '','') [name_prefix @ lit ''1'', name_prefix @ lit ''2'', name_prefix @ lit ''3''])
     \<and> distinct [name_prefix @ lit ''1'', name_prefix @ lit ''2'', name_prefix @ lit ''3'']"
proof -
  obtain fs' path where run: "generate_acl_rules 3 (lit ''20250102'') Map.empty = (fs', path)"
    by (rule prod.exhaust)
  have names: "map group_name [1..3] = [name_prefix @ lit ''1'', name_prefix @ lit ''2'', name_prefix @ lit ''3'']"
    by (simp add: upto.simps group_name_def str_int_small)
  have pos: "(0::int) < 3" by simp
  from acl_lists_group_names[OF pos run] obtain line where
    l: "fs' path = Some (line @ [10])"
      "field ''src_addr'' line = Some (join (lit '','') (map group_name [1..3]))"
      "distinct (map group_name [1..3])"
    by (elim exE conjE)
  show ?thesis
    by (rule exI[of _ fs'], rule exI[of _ path], rule exI[of _ line])
      (use run l in \<open>simp only: names simp_thms\<close>)
qed

text \<open>C7. When the fetch fails, answers with an error status, or yields no valid CIDR, the
  run ends early with the file system as it was: neither file is written. When the group
  count is zero the run ends before the ACL file is written. An empty input makes the
  partition report zero groups; it raises nothing.\<close>

theorem empty_result_aborts:
  assumes "get_data_date utcnow = Inr data_date"
  shows "(scan_cidrs (fetch_domestic_cidrs r) = [] \<longrightarrow> main utcnow r fs = (NoCidrs, fs))
      \<and> main utcnow RequestFailed fs = (NoCidrs, fs)
      \<and> (http_error status \<longrightarrow> main utcnow (Reply status text) fs = (NoCidrs, fs))
      \<and> acl_stage data_date (fs1, group_file, 0) = (NoGroups, fs1)
      \<and> snd (snd (generate_ip_groups [] data_date fs)) = 0"
  using assms
  by (simp add: main_def acl_stage_def fetch_domestic_cidrs_def generate_ip_groups_def
      gen_final_def gen_flush_def gen_init_def Let_def)

theorem empty_result_aborts_witness:
  "main \<lparr>year = 2025, month = 1, day = 1, hour = 0, minute = 0, second = 0, microsecond = 0\<rparr>
      (Reply 200 (lit ''# no address at all'')) Map.empty = (NoCidrs, Map.empty)
   \<and> main \<lparr>year = 2025, month = 1, day = 1, hour = 0, minute = 0, second = 0, microsecond = 0\<rparr>
      (Reply 404 (lit ''1.2.3.4/24'')) Map.empty = (NoCidrs, Map.empty)
   \<and> acl_stage (lit ''20250102'') (Map.empty, group_filename (lit ''20250102''), 0)
      = (NoGroups, Map.empty)"
proof -
  let ?now = "\<lparr>year = 2025, month = 1, day = 1, hour = 0, minute = 0, second = 0, microsecond = 0\<rparr>"
  have d: "get_data_date ?now = Inr (lit ''20250102'')"
    by (simp add: get_data_date_def add_one_day_def days_in_month_def strftime_Ymd_def zfill_def
        str_int_def str_nat.simps lit_def)
  have "splitlines (lit ''# no address at all'') = [lit ''# no address at all'']"
    by (simp add: lit_def is_linebreak_def)
  moreover have "strip (lit ''# no address at all'') = lit ''# no address at all''"
    by (simp add: strip_def lit_def isspace_def)
  moreover have "skip_line (lit ''# no address at all'')"
    by (simp add: skip_line_def starts_with_def lit_def)
  ultimately have e: "scan_cidrs (fetch_domestic_cidrs (Reply 200 (lit ''# no address at all''))) = []"
    by (simp add: fetch_domestic_cidrs_def http_error_def scan_def scan_step_def)
  have h: "http_error 404" by (simp add: http_error_def)
  show ?thesis
    using empty_result_aborts[OF d, of "Reply 200 (lit ''# no address at all'')" Map.empty 404
        "lit ''1.2.3.4/24''" Map.empty "group_filename (lit ''20250102'')"] e h
    by simp
qed

text \<open>C8. The run date fixes the two file names and nothing else: for the same CIDRs, two
  run dates give group files with the same text, hence the same ids, sequence numbers and
  names, and the same group count, and for the same group count they give ACL files with
  the same text.\<close>

theorem date_noninterference:
  "fst (snd (generate_ip_groups cidrs d1 fs1)) = lit ''domestic_ikuai_ipgroup-'' @ d1 @ lit ''.txt''
   \<and> snd (generate_acl_rules n d1 fs1) = lit ''domestic_ikuai_acl-'' @ d1 @ lit ''.txt''
   \<and> (\<exists>body. fst (generate_ip_groups cidrs d1 fs1) (group_filename d1) = Some body
            \<and> fst (generate_ip_groups cidrs d2 fs2) (group_filename d2) = Some body)
   \<and> snd (snd (generate_ip_groups cidrs d1 fs1)) = snd (snd (generate_ip_groups cidrs d2 fs2))
   \<and> (\<exists>line. fst (generate_acl_rules n d1 fs1) (acl_filename d1) = Some line
            \<and> fst (generate_acl_rules n d2 fs2) (acl_filename d2) = Some line)"
  by (simp add: generate_ip_groups_def generate_acl_rules_def Let_def group_filename_def
      acl_filename_def)

text \<open>C9. Whenever there is at least one group, the record of the first group in the group
  file and the single rule of the ACL file carry the same id, 60.\<close>

theorem acl_id_equals_first_group_id:
  assumes valid: "\<forall>c\<in>set cidrs. spec_cidr c" and ne: "cidrs \<noteq> []"
    and run1: "generate_ip_groups cidrs data_date fs = (fs1, group_file, num_groups)"
    and run2: "generate_acl_rules num_groups data_date fs1 = (fs2, acl_file)"
  shows "\<exists>body line. fs2 group_file = Some body \<and> fs2 acl_file = Some (line @ [10])
      \<and> records body \<noteq> []
      \<and> field ''id'' (records body ! 0) = Some (lit ''60'')
      \<and> field ''id'' line = Some (lit ''60'')
      \<and> field ''id'' line = field ''id'' (records body ! 0)"
proof -
  let ?body = "file_text (gen_final cidrs)"
  let ?line = "acl_rule (join (lit '','') (map group_name [1..num_groups]))"
  have g: "group_file = group_filename data_date" "fs1 group_file = Some ?body"
    using generate_ip_groups_result[OF run1] by simp_all
  have a: "acl_file = acl_filename data_date" "fs2 acl_file = Some (?line @ [10])"
    using generate_acl_rules_result(1,2)[OF run2] by simp_all
  have diff: "group_file \<noteq> acl_file" by (simp add: g(1) a(1) filenames_differ)
  then have "fs2 group_file = remove_if_exists acl_file fs1 group_file"
    by (rule generate_acl_rules_result(3)[OF run2])
  with diff g(2) have kept: "fs2 group_file = Some ?body"
    by (simp add: remove_if_exists_def)
  have k: "0 < ngroups cidrs" using ne by (simp add: ngroups_less)
  have recs: "records ?body = map (group_record cidrs) [0..<ngroups cidrs]"
    by (rule group_file_records[OF valid])
  have r0: "records ?body \<noteq> []" "records ?body ! 0 = group_record cidrs 0"
    using k by (simp_all add: recs)
  have id0: "field ''id'' (records ?body ! 0) = Some (lit ''60'')"
    using group_record_fields(1)[OF valid k] by (simp add: r0(2) str_int_small)
  have ida: "field ''id'' ?line = Some (lit ''60'')"
    using acl_line_no_space by (rule acl_rule_fields(2))
  show ?thesis
    by (rule exI[of _ ?body], rule exI[of _ ?line]) (simp only: kept a(2) r0(1) id0 ida simp_thms)
qed

theorem acl_id_equals_first_group_id_witness:
  "\<exists>fs1 group_file num_groups fs2 acl_file body line.
     generate_ip_groups [lit ''1.2.3.4/24''] (lit ''20250102'') Map.empty = (fs1, group_file, num_groups)
     \<and> generate_acl_rules num_groups (lit ''20250102'') fs1 = (fs2, acl_file)
     \<and> fs2 group_file = Some body \<and> fs2 acl_file = Some (line @ [10])
     \<and> field ''id'' (records body ! 0) = Some (lit ''60'')
     \<and> field ''id'' line = Some (lit ''60'')"
proof -
  let ?cidrs = "[lit ''1.2.3.4/24'']"
  have v: "\<forall>c\<in>set ?cidrs. spec_cidr c" by (simp add: example_cidr_valid)
  have ne: "?cidrs \<noteq> []" by simp
  obtain fs1 group_file num_groups where
    run1: "generate_ip_groups ?cidrs (lit ''20250102'') Map.empty = (fs1, group_file, num_groups)"
    by (rule prod_cases3)
  obtain fs2 acl_file where
    run2: "generate_acl_rules num_groups (lit ''20250102'') fs1 = (fs2, acl_file)"
    by (rule prod.exhaust)
  from acl_id_equals_first_group_id[OF v ne run1 run2] obtain body line where
    b: "fs2 group_file = Some body" "fs2 acl_file = Some (line @ [10])"
      "field ''id'' (records body ! 0) = Some (lit ''60'')" "field ''id'' line = Some (lit ''60'')"
    by (elim exE conjE)
  show ?thesis
    by (rule exI[of _ fs1], rule exI[of _ group_file], rule exI[of _ num_groups], rule exI[of _ fs2],
        rule exI[of _ acl_file], rule exI[of _ body], rule exI[of _ line])
      (simp only: run1 run2 b simp_thms)
qed

text \<open>C10. For every reading of the UTC clock in the years 1000 to 9999 whose next day is
  still a date of the calendar of \<open>datetime\<close>, the run-date token is the eight-character
  \<open>YYYYMMDD\<close> rendering of the date one day after the reading (its ordinal is one more),
  not of the date of the reading itself.\<close>

theorem run_date_is_next_utc_day:
  assumes v: "valid_datetime utcnow"
    and y: "1000 \<le> year utcnow"
    and last: "\<not> (year utcnow = 9999 \<and> month utcnow = 12 \<and> day utcnow = 31)"
  shows "\<exists>t. add_one_day utcnow = Inr t \<and> get_data_date utcnow = Inr (strftime_Ymd t)
      \<and> valid_datetime t \<and> ordinal t = ordinal utcnow + 1
      \<and> length (strftime_Ymd t) = 8
      \<and> token_date (strftime_Ymd t) = (year t, month t, day t)
      \<and> strftime_Ymd t \<noteq> strftime_Ymd utcnow"
proof -
  from add_one_day_ok[OF v last] obtain t where
    t: "add_one_day utcnow = Inr t" "valid_datetime t" "ordinal t = ordinal utcnow + 1"
    by blast
  have yt: "1000 \<le> year t" using add_one_day_year[OF t(1)] y by simp
  have neq: "strftime_Ymd t \<noteq> strftime_Ymd utcnow"
  proof
    assume "strftime_Ymd t = strftime_Ymd utcnow"
    then have "token_date (strftime_Ymd t) = token_date (strftime_Ymd utcnow)" by simp
    then have "year t = year utcnow" "month t = month utcnow" "day t = day utcnow"
      by (simp_all add: strftime_Ymd_token(2)[OF t(2) yt] strftime_Ymd_token(2)[OF v y])
    then have "ordinal t = ordinal utcnow" by (simp add: ordinal_def)
    with t(3) show False by simp
  qed
  have "get_data_date utcnow = Inr (strftime_Ymd t)" by (simp add: get_data_date_def t(1))
  with t neq strftime_Ymd_token[OF t(2) yt] show ?thesis by blast
qed

theorem run_date_is_next_utc_day_witness:
  "\<exists>t. add_one_day \<lparr>year = 2024, month = 12, day = 31, hour = 23, minute = 59, second = 59,
            microsecond = 0\<rparr> = Inr t
     \<and> get_data_date \<lparr>year = 2024, month = 12, day = 31, hour = 23, minute = 59, second = 59,
            microsecond = 0\<rparr> = Inr (strftime_Ymd t)
     \<and> strftime_Ymd t = lit ''20250101''
     \<and> ordinal t = ordinal \<lparr>year = 2024, month = 12, day = 31, hour = 23, minute = 59,
            second = 59, microsecond = 0\<rparr> + 1"
proof -
  let ?now = "\<lparr>year = 2024, month = 12, day = 31, hour = 23, minute = 59, second = 59,
      microsecond = 0\<rparr>"
  have v: "valid_datetime ?now" by (simp add: valid_datetime_def days_in_month_def)
  have y: "1000 \<le> year ?now" by simp
  have last: "\<not> (year ?now = 9999 \<and> month ?now = 12 \<and> day ?now = 31)" by simp
  have tok: "get_data_date ?now = Inr (lit ''20250101'')"
    by (simp add: get_data_date_def add_one_day_def days_in_month_def strftime_Ymd_def zfill_def
        str_int_def str_nat.simps lit_def)
  from run_date_is_next_utc_day[OF v y last] obtain t where
    t: "add_one_day ?now = Inr t" "get_data_date ?now = Inr (strftime_Ymd t)"
      "ordinal t = ordinal ?now + 1"
    by (elim exE conjE)
  from t(2) tok have "strftime_Ymd t = lit ''20250101''" by simp
  with t show ?thesis by (intro exI[of _ t] conjI)
qed

end
